theory Spec2Isabelle
  imports Main
begin

section \<open>JavaScript strings and the platform's string primitives\<close>

text \<open>
  A JavaScript string is a sequence of UTF-16 code units; a code unit is a natural number
  (below 65536 in every string the platform produces). A literal of the source is written
  \<open>js ''...''\<close>, a single character \<open>ch CHR ''x''\<close>.
\<close>

type_synonym jsstring = "nat list"

abbreviation ch :: "char \<Rightarrow> nat" where
  "ch c \<equiv> of_char c"

definition js :: "string \<Rightarrow> jsstring" where
  "js s = map of_char s"

definition quote :: nat where "quote = 0x22"
definition backslash :: nat where "backslash = 0x5C"
definition backticks :: jsstring where "backticks = [0x60, 0x60, 0x60]"

definition is_digit :: "nat \<Rightarrow> bool" where
  "is_digit c = (ch CHR ''0'' \<le> c \<and> c \<le> ch CHR ''9'')"

definition is_hex :: "nat \<Rightarrow> bool" where
  "is_hex c = (is_digit c \<or> (ch CHR ''a'' \<le> c \<and> c \<le> ch CHR ''f'')
                \<or> (ch CHR ''A'' \<le> c \<and> c \<le> ch CHR ''F''))"

text \<open>The class \<^verbatim>\<open>\w\<close> of a regular expression without the \<^verbatim>\<open>u\<close> and \<^verbatim>\<open>i\<close> flags.\<close>

definition is_word :: "nat \<Rightarrow> bool" where
  "is_word c = (is_digit c \<or> (ch CHR ''a'' \<le> c \<and> c \<le> ch CHR ''z'')
                 \<or> (ch CHR ''A'' \<le> c \<and> c \<le> ch CHR ''Z'') \<or> c = ch CHR ''_'')"

text \<open>The four whitespace characters of the JSON grammar: tab, line feed, carriage return, space.\<close>

definition is_json_ws :: "nat \<Rightarrow> bool" where
  "is_json_ws c = (c = 0x09 \<or> c = 0x0A \<or> c = 0x0D \<or> c = 0x20)"

text \<open>
  What \<^verbatim>\<open>String.prototype.trim\<close> removes and \<^verbatim>\<open>\s\<close> matches: WhiteSpace and
  LineTerminator of ECMAScript (tab, line feed, vertical tab, form feed, carriage return,
  space, no-break space, the other space separators, line and paragraph separator and the
  byte order mark).
\<close>

definition is_js_ws :: "nat \<Rightarrow> bool" where
  "is_js_ws c =
     (c = 0x09 \<or> c = 0x0A \<or> c = 0x0B \<or> c = 0x0C \<or> c = 0x0D \<or> c = 0x20 \<or> c = 0xA0
      \<or> c = 0x1680 \<or> (0x2000 \<le> c \<and> c \<le> 0x200A) \<or> c = 0x2028 \<or> c = 0x2029
      \<or> c = 0x202F \<or> c = 0x205F \<or> c = 0x3000 \<or> c = 0xFEFF)"

definition trimStart :: "jsstring \<Rightarrow> jsstring" where
  "trimStart s = dropWhile is_js_ws s"

definition trimEnd :: "jsstring \<Rightarrow> jsstring" where
  "trimEnd s = rev (dropWhile is_js_ws (rev s))"

definition trim :: "jsstring \<Rightarrow> jsstring" where
  "trim s = trimEnd (trimStart s)"

definition startsWith :: "jsstring \<Rightarrow> jsstring \<Rightarrow> bool" where
  "startsWith s p = (take (length p) s = p)"

definition endsWith :: "jsstring \<Rightarrow> jsstring \<Rightarrow> bool" where
  "endsWith s p = (length p \<le> length s \<and> drop (length s - length p) s = p)"

text \<open>
  \<^verbatim>\<open>s.substring(a, b)\<close> for indices that are natural numbers: both are clamped to the
  length, and they are swapped when the first is the larger.
\<close>

definition substring :: "jsstring \<Rightarrow> nat \<Rightarrow> nat \<Rightarrow> jsstring" where
  "substring s a b =
     (let a' = min a (length s); b' = min b (length s)
      in take (max a' b' - min a' b') (drop (min a' b') s))"

text \<open>\<^verbatim>\<open>xs.join(sep)\<close> on an array of strings.\<close>

fun join :: "jsstring \<Rightarrow> jsstring list \<Rightarrow> jsstring" where
  "join sep [] = []"
| "join sep [x] = x"
| "join sep (x # y # ys) = x @ sep @ join sep (y # ys)"

text \<open>A natural number in decimal, as a template literal prints an integer.\<close>

fun decimal :: "nat \<Rightarrow> jsstring" where
  "decimal n = (if n < 10 then [ch CHR ''0'' + n] else decimal (n div 10) @ [ch CHR ''0'' + n mod 10])"

declare decimal.simps [simp del]

section \<open>JSON values and \<^verbatim>\<open>JSON.parse\<close>\<close>

text \<open>
  A value as \<^verbatim>\<open>JSON.parse\<close> reads it. A number keeps its literal (the double it denotes
  is a function of the literal); an object keeps its members in the order of the text,
  a later member of the same name overriding an earlier one when a property is read
  (\<open>field\<close> below).
\<close>

datatype json =
    JNull
  | JBool bool
  | JNumber jsstring
  | JString jsstring
  | JArray "json list"
  | JObject "(jsstring \<times> json) list"

definition skip_ws :: "jsstring \<Rightarrow> jsstring" where
  "skip_ws s = dropWhile is_json_ws s"

definition hex_val :: "nat \<Rightarrow> nat" where
  "hex_val c =
     (if is_digit c then c - ch CHR ''0''
      else if ch CHR ''a'' \<le> c then c - ch CHR ''a'' + 10
      else c - ch CHR ''A'' + 10)"

definition hex4 :: "jsstring \<Rightarrow> nat" where
  "hex4 ds = foldl (\<lambda>a c. 16 * a + hex_val c) 0 ds"

text \<open>The character after a backslash, other than \<^verbatim>\<open>u\<close>, and the code unit it stands for.\<close>

definition escape_value :: "nat \<Rightarrow> nat option" where
  "escape_value e =
     (if e = quote then Some 0x22
      else if e = backslash then Some 0x5C
      else if e = ch CHR ''/'' then Some 0x2F
      else if e = ch CHR ''b'' then Some 0x08
      else if e = ch CHR ''f'' then Some 0x0C
      else if e = ch CHR ''n'' then Some 0x0A
      else if e = ch CHR ''r'' then Some 0x0D
      else if e = ch CHR ''t'' then Some 0x09
      else None)"

text \<open>
  The rest of a string literal, after its opening quote: the code units up to the closing
  quote and the text after it. A control character (below \<^verbatim>\<open>0x20\<close>) and an unknown or
  unfinished escape are syntax errors.
\<close>

fun parse_string_body :: "jsstring \<Rightarrow> (jsstring \<times> jsstring) option" where
  "parse_string_body [] = None"
| "parse_string_body (c # cs) =
     (if c = quote then Some ([], cs)
      else if c = backslash then
        (case cs of
           [] \<Rightarrow> None
         | e # es \<Rightarrow>
             if e = ch CHR ''u'' then
               (if 4 \<le> length es \<and> list_all is_hex (take 4 es)
                then map_option (apfst ((#) (hex4 (take 4 es)))) (parse_string_body (drop 4 es))
                else None)
             else
               (case escape_value e of
                  None \<Rightarrow> None
                | Some u \<Rightarrow> map_option (apfst ((#) u)) (parse_string_body es)))
      else if c < 0x20 then None
      else map_option (apfst ((#) c)) (parse_string_body cs))"

text \<open>
  A number literal: an optional minus, \<^verbatim>\<open>0\<close> or a digit string without leading zero, an
  optional fraction and an optional exponent, each with at least one digit. The result is
  the literal and the text after it.
\<close>

definition parse_int_part :: "jsstring \<Rightarrow> (jsstring \<times> jsstring) option" where
  "parse_int_part s =
     (case s of
        [] \<Rightarrow> None
      | c # cs \<Rightarrow>
          if c = ch CHR ''0'' then Some ([c], cs)
          else if is_digit c then Some (takeWhile is_digit s, dropWhile is_digit s)
          else None)"

definition parse_digits1 :: "jsstring \<Rightarrow> (jsstring \<times> jsstring) option" where
  "parse_digits1 s =
     (if takeWhile is_digit s = [] then None
      else Some (takeWhile is_digit s, dropWhile is_digit s))"

definition parse_frac :: "jsstring \<Rightarrow> (jsstring \<times> jsstring) option" where
  "parse_frac s =
     (case s of
        [] \<Rightarrow> Some ([], s)
      | c # cs \<Rightarrow>
          if c = ch CHR ''.'' then map_option (apfst ((#) c)) (parse_digits1 cs)
          else Some ([], s))"

definition parse_exp :: "jsstring \<Rightarrow> (jsstring \<times> jsstring) option" where
  "parse_exp s =
     (case s of
        [] \<Rightarrow> Some ([], s)
      | c # cs \<Rightarrow>
          if c = ch CHR ''e'' \<or> c = ch CHR ''E'' then
            (case cs of
               [] \<Rightarrow> None
             | d # ds \<Rightarrow>
                 if d = ch CHR ''+'' \<or> d = ch CHR ''-''
                 then map_option (apfst (\<lambda>x. c # d # x)) (parse_digits1 ds)
                 else map_option (apfst ((#) c)) (parse_digits1 cs))
          else Some ([], s))"

definition parse_number :: "jsstring \<Rightarrow> (jsstring \<times> jsstring) option" where
  "parse_number s =
     (let (sign, s1) = (case s of [] \<Rightarrow> ([], s)
                        | c # cs \<Rightarrow> if c = ch CHR ''-'' then ([c], cs) else ([], s))
      in case parse_int_part s1 of
           None \<Rightarrow> None
         | Some (ip, s2) \<Rightarrow>
             (case parse_frac s2 of
                None \<Rightarrow> None
              | Some (fp, s3) \<Rightarrow>
                  (case parse_exp s3 of
                     None \<Rightarrow> None
                   | Some (ep, s4) \<Rightarrow> Some (sign @ ip @ fp @ ep, s4))))"

text \<open>
  The recursive descent over values. The first argument bounds the number of nested calls;
  \<open>json_parse\<close> starts it above the length of the text, and every call consumes a character
  before it recurses.
\<close>

fun parse_value :: "nat \<Rightarrow> jsstring \<Rightarrow> (json \<times> jsstring) option"
  and parse_elements :: "nat \<Rightarrow> jsstring \<Rightarrow> (json list \<times> jsstring) option"
  and parse_members :: "nat \<Rightarrow> jsstring \<Rightarrow> ((jsstring \<times> json) list \<times> jsstring) option"
where
  "parse_value 0 s = None"
| "parse_value (Suc n) s =
     (case s of
        [] \<Rightarrow> None
      | c # cs \<Rightarrow>
          if c = ch CHR ''{'' then
            (case skip_ws cs of
               [] \<Rightarrow> None
             | d # ds \<Rightarrow>
                 if d = ch CHR ''}'' then Some (JObject [], ds)
                 else map_option (apfst JObject) (parse_members n (d # ds)))
          else if c = ch CHR ''['' then
            (case skip_ws cs of
               [] \<Rightarrow> None
             | d # ds \<Rightarrow>
                 if d = ch CHR '']'' then Some (JArray [], ds)
                 else map_option (apfst JArray) (parse_elements n (d # ds)))
          else if c = quote then map_option (apfst JString) (parse_string_body cs)
          else if take 4 s = js ''true'' then Some (JBool True, drop 4 s)
          else if take 5 s = js ''false'' then Some (JBool False, drop 5 s)
          else if take 4 s = js ''null'' then Some (JNull, drop 4 s)
          else map_option (apfst JNumber) (parse_number s))"
| "parse_elements 0 s = None"
| "parse_elements (Suc n) s =
     (case parse_value n s of
        None \<Rightarrow> None
      | Some (v, r) \<Rightarrow>
          (case skip_ws r of
             [] \<Rightarrow> None
           | d # ds \<Rightarrow>
               if d = ch CHR '','' then map_option (apfst ((#) v)) (parse_elements n (skip_ws ds))
               else if d = ch CHR '']'' then Some ([v], ds)
               else None))"
| "parse_members 0 s = None"
| "parse_members (Suc n) s =
     (case s of
        [] \<Rightarrow> None
      | c # cs \<Rightarrow>
          if c \<noteq> quote then None
          else
            (case parse_string_body cs of
               None \<Rightarrow> None
             | Some (k, r) \<Rightarrow>
                 (case skip_ws r of
                    [] \<Rightarrow> None
                  | d # ds \<Rightarrow>
                      if d \<noteq> ch CHR '':'' then None
                      else
                        (case parse_value n (skip_ws ds) of
                           None \<Rightarrow> None
                         | Some (v, r') \<Rightarrow>
                             (case skip_ws r' of
                                [] \<Rightarrow> None
                              | e # es \<Rightarrow>
                                  if e = ch CHR '','' then
                                    map_option (apfst ((#) (k, v))) (parse_members n (skip_ws es))
                                  else if e = ch CHR ''}'' then Some ([(k, v)], es)
                                  else None)))))"

text \<open>\<^verbatim>\<open>JSON.parse(s)\<close>: \<open>None\<close> is the SyntaxError.\<close>

definition json_parse :: "jsstring \<Rightarrow> json option" where
  "json_parse s =
     (case parse_value (Suc (length s)) (skip_ws s) of
        None \<Rightarrow> None
      | Some (v, r) \<Rightarrow> if skip_ws r = [] then Some v else None)"

section \<open>The tolerant decoder \<^verbatim>\<open>parseJsonFromText\<close>\<close>

text \<open>
  The fence pattern \<^verbatim>\<open>/^```(\w*)?\s*\n?(.*?)\n?\s*```$/s\<close> on the trimmed text. After
  the opening marker the greedy \<^verbatim>\<open>\w*\<close> and \<^verbatim>\<open>\s*\<close> take all they can (neither
  matches a backtick, so giving characters back never helps), and the pattern matches
  exactly when at least three characters are left and the last three are the closing
  marker. The lazy second group is then the shortest prefix of the remainder that leaves
  only whitespace before the closing marker. The result is the pair of groups 1 and 2.
\<close>

definition fenceMatch :: "jsstring \<Rightarrow> (jsstring \<times> jsstring) option" where
  "fenceMatch s =
     (if startsWith s backticks then
        (let r1 = drop 3 s;
             r3 = dropWhile is_js_ws (dropWhile is_word r1)
         in if endsWith r3 backticks
            then Some (takeWhile is_word r1, trimEnd (take (length r3 - 3) r3))
            else None)
      else None)"

text \<open>
  The loose pattern \<^verbatim>\<open>/(\[[\s\S]*\]|\{[\s\S]*\})/s\<close>: the leftmost position holding an
  opening bracket with a closing bracket somewhere after it, or an opening brace with a
  closing brace somewhere after it; the match runs to the last such closer.
\<close>

definition upto_last :: "nat \<Rightarrow> jsstring \<Rightarrow> jsstring" where
  "upto_last c s = rev (dropWhile (\<lambda>x. x \<noteq> c) (rev s))"

fun jsonLooseMatch :: "jsstring \<Rightarrow> jsstring option" where
  "jsonLooseMatch [] = None"
| "jsonLooseMatch (c # cs) =
     (if c = ch CHR ''['' \<and> ch CHR '']'' \<in> set cs then Some (c # upto_last (ch CHR '']'') cs)
      else if c = ch CHR ''{'' \<and> ch CHR ''}'' \<in> set cs then Some (c # upto_last (ch CHR ''}'') cs)
      else jsonLooseMatch cs)"

text \<open>The variables of the salvage loop (Fallback 1).\<close>

record scan_state =
  buffer :: jsstring
  depth :: int
  inString :: bool
  extractedObjects :: "json list"

text \<open>The inner loop: the number of consecutive backslashes just before position \<open>i\<close>.\<close>

definition backslashCount :: "jsstring \<Rightarrow> nat \<Rightarrow> nat" where
  "backslashCount arrayContent i =
     length (takeWhile (\<lambda>c. c = backslash) (rev (take i arrayContent)))"

text \<open>
  The body of the outer loop after the inner one: \<open>char\<close> is the character at the current
  position and \<open>count\<close> the number of backslashes just before it.
\<close>

definition scan_step :: "nat \<Rightarrow> nat \<Rightarrow> scan_state \<Rightarrow> scan_state" where
  "scan_step count char st =
     (let inStr = (if char = quote \<and> even count then \<not> inString st else inString st);
          buf1 = (if \<not> inStr \<and> char = ch CHR ''{'' \<and> depth st = 0 then [] else buffer st);
          dep = (if \<not> inStr then
                   (if char = ch CHR ''{'' then depth st + 1
                    else if char = ch CHR ''}'' then depth st - 1
                    else depth st)
                 else depth st);
          buf2 = buf1 @ [char];
          st' = st\<lparr>buffer := buf2, depth := dep, inString := inStr\<rparr>
      in if \<not> inStr \<and> dep = 0 \<and> char = ch CHR ''}'' then
           (if startsWith (trim buf2) (js ''{'') then
              (case json_parse buf2 of
                 Some obj \<Rightarrow>
                   st'\<lparr>buffer := [], extractedObjects := extractedObjects st @ [obj]\<rparr>
               | None \<Rightarrow> st')
            else st'\<lparr>buffer := []\<rparr>)
         else if \<not> inStr \<and> dep = 0 \<and> char = ch CHR '','' then st'\<lparr>buffer := []\<rparr>
         else st')"

text \<open>One round of the outer loop, at position \<open>i < length arrayContent\<close>.\<close>

definition scan_char :: "jsstring \<Rightarrow> scan_state \<Rightarrow> nat \<Rightarrow> scan_state" where
  "scan_char arrayContent st i = scan_step (backslashCount arrayContent i) (arrayContent ! i) st"

definition scan_init :: scan_state where
  "scan_init = \<lparr>buffer = [], depth = 0, inString = False, extractedObjects = []\<rparr>"

definition iterative_salvage :: "jsstring \<Rightarrow> json list" where
  "iterative_salvage arrayContent =
     extractedObjects (foldl (scan_char arrayContent) scan_init [0..<length arrayContent])"

text \<open>
  \<^verbatim>\<open>parseJsonFromText(text, isArrayExpected)\<close>. The function returns a JavaScript value;
  its failure value \<^verbatim>\<open>null\<close> is \<open>JNull\<close>, which is also what the text \<^verbatim>\<open>null\<close> parses to.
\<close>

definition parseJsonFromText :: "jsstring \<Rightarrow> bool \<Rightarrow> json" where
  "parseJsonFromText text isArrayExpected =
     (let jsonStr0 = trim text;
          jsonStr = (case fenceMatch jsonStr0 of
                       Some (tag, body) \<Rightarrow> if body \<noteq> [] then trim body else jsonStr0
                     | None \<Rightarrow> jsonStr0)
      in case json_parse jsonStr of
           Some v \<Rightarrow> v
         | None \<Rightarrow>
             (let extracted =
                    (if isArrayExpected \<and> startsWith jsonStr (js ''['') \<and> endsWith jsonStr (js '']'')
                     then iterative_salvage (trim (substring jsonStr 1 (length jsonStr - 1)))
                     else [])
              in if extracted \<noteq> [] then JArray extracted
                 else
                   (case jsonLooseMatch jsonStr of
                      None \<Rightarrow> JNull
                    | Some m \<Rightarrow> (case json_parse m of Some parsed \<Rightarrow> parsed | None \<Rightarrow> JNull))))"

section \<open>Values at run time: truthiness, property reads, spreading\<close>

text \<open>
  The decoder's result is cast to \<^verbatim>\<open>Deal[]\<close> or \<^verbatim>\<open>DealVerification\<close> without a
  check, so the code after it runs on whatever JSON value came back. This section gives
  the JavaScript operations that code applies to such a value.
\<close>

definition digits_val :: "jsstring \<Rightarrow> nat" where
  "digits_val ds = foldl (\<lambda>a c. 10 * a + (c - ch CHR ''0'')) 0 ds"

text \<open>
  The parts of a number literal: its digits before the exponent (the decimal point
  removed), the number of digits after the point, and the exponent.
\<close>

definition unsigned_literal :: "jsstring \<Rightarrow> jsstring" where
  "unsigned_literal lit = (if startsWith lit (js ''-'') then tl lit else lit)"

definition fraction_digits :: "jsstring \<Rightarrow> jsstring" where
  "fraction_digits lit =
     (let r = dropWhile is_digit (unsigned_literal lit)
      in if startsWith r (js ''.'') then takeWhile is_digit (tl r) else [])"

definition mantissa :: "jsstring \<Rightarrow> nat" where
  "mantissa lit = digits_val (takeWhile is_digit (unsigned_literal lit) @ fraction_digits lit)"

definition exponent_part :: "jsstring \<Rightarrow> jsstring" where
  "exponent_part lit =
     (let r = dropWhile is_digit (unsigned_literal lit)
      in if startsWith r (js ''.'') then dropWhile is_digit (tl r) else r)"

definition exponent :: "jsstring \<Rightarrow> int" where
  "exponent lit =
     (case exponent_part lit of
        [] \<Rightarrow> 0
      | e # ds \<Rightarrow>
          if startsWith ds (js ''-'') then - int (digits_val (tl ds))
          else if startsWith ds (js ''+'') then int (digits_val (tl ds))
          else int (digits_val ds))"

text \<open>
  Whether a number literal denotes \<^verbatim>\<open>0\<close> or \<^verbatim>\<open>-0\<close> as a double: its digits are all
  zero, or its exact value \<open>m * 10 ^ e\<close> is at most \<open>2 ^ -1075\<close>, half of the smallest
  positive double, and rounds to zero.
\<close>

definition denotes_zero :: "jsstring \<Rightarrow> bool" where
  "denotes_zero lit =
     (let m = mantissa lit;
          e = exponent lit - int (length (fraction_digits lit))
      in if m = 0 then True
         else if 0 \<le> e then False
         else m * 2 ^ 1075 \<le> 10 ^ nat (- e))"

text \<open>ToBoolean on a parsed value.\<close>

fun truthy :: "json \<Rightarrow> bool" where
  "truthy JNull = False"
| "truthy (JBool b) = b"
| "truthy (JNumber lit) = (\<not> denotes_zero lit)"
| "truthy (JString s) = (s \<noteq> [])"
| "truthy (JArray xs) = True"
| "truthy (JObject kvs) = True"

text \<open>An exception is an object with a \<^verbatim>\<open>message\<close>; nothing else of it is read.\<close>

datatype js_error = Error jsstring

fun message :: "js_error \<Rightarrow> jsstring" where
  "message (Error m) = m"

text \<open>
  A TypeError or URIError raised by the platform. Its message is the engine's own wording;
  the service compares it with \<^verbatim>\<open>API_KEY_MISSING\<close> and never hands it on, so one
  representative stands for it.
\<close>

definition typeError :: js_error where
  "typeError = Error (js ''TypeError'')"

definition uriError :: js_error where
  "uriError = Error (js ''URIError: URI malformed'')"

text \<open>Reading property \<open>k\<close> of an object: the last member of that name.\<close>

definition field :: "jsstring \<Rightarrow> (jsstring \<times> json) list \<Rightarrow> json option" where
  "field k kvs = map_of (rev kvs) k"

text \<open>
  \<^verbatim>\<open>v.k\<close> for the property names the service reads (\<^verbatim>\<open>title\<close>, \<^verbatim>\<open>description\<close>, the
  prices, \<^verbatim>\<open>merchant\<close>, \<^verbatim>\<open>category\<close>), none of which a prototype defines: \<^verbatim>\<open>null\<close>
  raises a TypeError, a primitive or an array has no such property (\<open>None\<close> is
  \<^verbatim>\<open>undefined\<close>).
\<close>

fun read_property :: "json \<Rightarrow> jsstring \<Rightarrow> js_error + json option" where
  "read_property JNull k = Inl typeError"
| "read_property (JObject kvs) k = Inr (field k kvs)"
| "read_property v k = Inr None"

text \<open>The own enumerable properties that \<^verbatim>\<open>{...v}\<close> copies, in order.\<close>

fun own_properties :: "json \<Rightarrow> (jsstring \<times> json) list" where
  "own_properties (JObject kvs) = kvs"
| "own_properties (JArray xs) = map (\<lambda>i. (decimal i, xs ! i)) [0..<length xs]"
| "own_properties (JString s) = map (\<lambda>i. (decimal i, JString [s ! i])) [0..<length s]"
| "own_properties v = []"

text \<open>
  \<^verbatim>\<open>encodeURIComponent\<close>: the code points of the string in UTF-8, every byte escaped but
  the unreserved characters \<^verbatim>\<open>A-Z a-z 0-9 - _ . ! ~ * ' ( )\<close>. A surrogate without its
  partner raises a URIError (\<open>None\<close>).
\<close>

definition is_unreserved :: "nat \<Rightarrow> bool" where
  "is_unreserved c = (is_word c \<or> c \<in> set [0x2D, 0x2E, 0x21, 0x7E, 0x2A, 0x27, 0x28, 0x29])"

definition hex_digit :: "nat \<Rightarrow> nat" where
  "hex_digit d = (if d < 10 then ch CHR ''0'' + d else ch CHR ''A'' + (d - 10))"

definition percent :: "nat \<Rightarrow> jsstring" where
  "percent b = [ch CHR ''%'', hex_digit (b div 16), hex_digit (b mod 16)]"

definition utf8 :: "nat \<Rightarrow> nat list" where
  "utf8 cp =
     (if cp < 0x80 then [cp]
      else if cp < 0x800 then [0xC0 + cp div 0x40, 0x80 + cp mod 0x40]
      else if cp < 0x10000 then
        [0xE0 + cp div 0x1000, 0x80 + (cp div 0x40) mod 0x40, 0x80 + cp mod 0x40]
      else
        [0xF0 + cp div 0x40000, 0x80 + (cp div 0x1000) mod 0x40,
         0x80 + (cp div 0x40) mod 0x40, 0x80 + cp mod 0x40])"

fun encodeURIComponent :: "jsstring \<Rightarrow> jsstring option" where
  "encodeURIComponent [] = Some []"
| "encodeURIComponent (u # us) =
     (if is_unreserved u then map_option ((#) u) (encodeURIComponent us)
      else if 0xDC00 \<le> u \<and> u < 0xE000 then None
      else if 0xD800 \<le> u \<and> u < 0xDC00 then
        (case us of
           [] \<Rightarrow> None
         | l # ls \<Rightarrow>
             if 0xDC00 \<le> l \<and> l < 0xE000 then
               map_option ((@) (concat (map percent
                   (utf8 (0x10000 + (u - 0xD800) * 0x400 + (l - 0xDC00))))))
                 (encodeURIComponent ls)
             else None)
      else map_option ((@) (concat (map percent (utf8 u)))) (encodeURIComponent us))"

text \<open>
  What the model takes from the platform as given: the clock, the conversion of a value
  that is not a string to a string (number formatting, \<^verbatim>\<open>[object Object]\<close>, array
  joining; \<open>None\<close> when the conversion raises a TypeError), and the two random prices of
  a placeholder deal, already formatted by \<^verbatim>\<open>toFixed(2)\<close>.
\<close>

record platform =
  dateNow :: "nat \<Rightarrow> nat"
  toStringJS :: "json \<Rightarrow> jsstring option"
  randomPrices :: "nat \<Rightarrow> jsstring \<times> jsstring"

text \<open>\<^verbatim>\<open>${v}\<close> in a template literal, for a property that may be absent.\<close>

definition interpolate :: "platform \<Rightarrow> json option \<Rightarrow> js_error + jsstring" where
  "interpolate plat v =
     (case v of
        None \<Rightarrow> Inr (js ''undefined'')
      | Some (JString s) \<Rightarrow> Inr s
      | Some w \<Rightarrow> (case toStringJS plat w of None \<Rightarrow> Inl typeError | Some s \<Rightarrow> Inr s))"

section \<open>Constants and types (\<^verbatim>\<open>constants.ts\<close>, \<^verbatim>\<open>types.ts\<close>)\<close>

definition DEAL_CATEGORIES :: "jsstring list" where
  "DEAL_CATEGORIES =
     [js ''Electronics'', js ''Fashion'', js ''Home & Kitchen'', js ''Sports & Outdoors'',
      js ''Books'', js ''Groceries'', js ''Beauty & Personal Care'', js ''Toys & Games'',
      js ''Automotive'', js ''Travel'']"

definition GEMINI_MODEL_TEXT :: jsstring where
  "GEMINI_MODEL_TEXT = js ''gemini-2.5-flash-preview-04-17''"

definition MOCK_API_KEY_NOTICE :: jsstring where
  "MOCK_API_KEY_NOTICE = js ''API_KEY environment variable not found. Using mock data. For live AI features, please ensure the API_KEY is configured in your environment.''"

definition GEMINI_ERROR_MESSAGE :: jsstring where
  "GEMINI_ERROR_MESSAGE = js ''Could not connect to AI services. Please check your API key or network connection.''"

definition INITIAL_DEALS_COUNT :: nat where
  "INITIAL_DEALS_COUNT = 6"

record UserPreferences =
  categories :: "jsstring list"
  location :: jsstring
  "keywords" :: jsstring

record GroundingChunkWeb =
  uri :: "jsstring option"
  title :: "jsstring option"

record GroundingChunk =
  web :: "GroundingChunkWeb option"
  retrievedContext :: "GroundingChunkWeb option"

record GroundingMetadata =
  groundingChunks :: "GroundingChunk list option"
  searchQueries :: "jsstring list option"

section \<open>The service (\<^verbatim>\<open>services/geminiService.ts\<close>)\<close>

subsection \<open>The oracle and the credential gate\<close>

datatype tool = GoogleSearch

record config =
  responseMimeType :: "jsstring option"
  tools :: "tool list option"

record content =
  role :: jsstring
  parts :: "jsstring list"

record request =
  model :: jsstring
  contents :: "content list"
  config :: config

text \<open>
  What the service reads of a \<^verbatim>\<open>GenerateContentResponse\<close>: its text and the grounding
  metadata of its first candidate.
\<close>

record response =
  response_text :: jsstring
  candidate_groundingMetadata :: "GroundingMetadata option"

text \<open>
  \<^verbatim>\<open>localAi.models.generateContent\<close>: the promise is rejected with an error or fulfilled
  with a response. The client is identified by the key it was built with.
\<close>

type_synonym oracle_fn = "jsstring \<Rightarrow> request \<Rightarrow> js_error + response"

text \<open>The module's variable \<^verbatim>\<open>ai\<close>: the client once built, \<^verbatim>\<open>null\<close> before.\<close>

record service =
  ai :: "jsstring option"

text \<open>
  \<^verbatim>\<open>initializeAi\<close>. The first argument is \<^verbatim>\<open>import.meta.env.VITE_GEMINI_API_KEY\<close>,
  \<open>None\<close> when undefined; the empty string is falsy as well.
\<close>

definition initializeAi :: "jsstring option \<Rightarrow> service \<Rightarrow> js_error + (jsstring \<times> service)" where
  "initializeAi apiKey st =
     (case ai st of
        Some client \<Rightarrow> Inr (client, st)
      | None \<Rightarrow>
          (case apiKey of
             None \<Rightarrow> Inl (Error (js ''API_KEY_MISSING''))
           | Some k \<Rightarrow>
               if k = [] then Inl (Error (js ''API_KEY_MISSING''))
               else Inr (k, st\<lparr>ai := Some k\<rparr>)))"

subsection \<open>\<^verbatim>\<open>generateDeals\<close>\<close>

definition deals_prompt :: jsstring where
  \<open>deals_prompt = join [0x0A]
     [js ''Generate '' @ decimal INITIAL_DEALS_COUNT @ js '' realistic-sounding deals for an e-commerce website.'',
      js ''For each deal, include: title, a short description (1-2 sentences), original price (e.g., $100.00), discounted price (e.g., $75.00), merchant name (e.g., Amazon, BestBuy, LocalMart), and a product category.'',
      js ''Output ONLY the deals as a JSON array of objects, where each object has keys: "title", "description", "originalPrice", "discountedPrice", "merchant", "category".'',
      js ''Ensure prices are strings representing currency values. Do not include any text before or after the JSON array.'',
      js ''Example of one deal object:'',
      js ''{'',
      js ''  "title": "50% Off Sony WH-1000XM5 Noise Cancelling Headphones",'',
      js ''  "description": "Experience industry-leading noise cancellation with these premium headphones. Perfect for travel and focus.",'',
      js ''  "originalPrice": "399.99",'',
      js ''  "discountedPrice": "199.99",'',
      js ''  "merchant": "BestBuy",'',
      js ''  "category": "Electronics"'',
      js ''}'']\<close>

definition generation_prompt :: "UserPreferences \<Rightarrow> jsstring" where
  \<open>generation_prompt preferences =
     deals_prompt
     @ (if keywords preferences \<noteq> []
        then [0x0A] @ js ''Focus on deals related to: "'' @ keywords preferences @ js ''".''
        else [])
     @ (if length (categories preferences) > 0
        then [0x0A] @ js ''Prioritize categories: '' @ join (js '', '') (categories preferences)
             @ js ''. Available categories can include Electronics, Fashion, Home & Kitchen, Sports & Outdoors, Books, Groceries, Beauty & Personal Care, Toys & Games, Automotive, Travel.''
        else [])
     @ (if location preferences \<noteq> []
        then [0x0A] @ js ''Consider offers relevant to location: "'' @ location preferences
             @ js ''" or online deals accessible from there. Mention if a deal is local or online.''
        else [])
     @ [0x0A] @ js ''Provide varied and appealing deals. If generating local deals, ensure the merchant name reflects that. Ensure the output is strictly a JSON array.''\<close>

definition searchQuery_of :: "UserPreferences \<Rightarrow> jsstring" where
  "searchQuery_of preferences =
     js ''latest deals''
     @ (if keywords preferences \<noteq> [] then js '' for '' @ keywords preferences else [])
     @ (if length (categories preferences) > 0
        then js '' in '' @ join (js '', '') (categories preferences) else [])
     @ (if location preferences \<noteq> [] then js '' near '' @ location preferences else [])"

definition searchPrompt :: "jsstring \<Rightarrow> jsstring" where
  \<open>searchPrompt searchQuery = join [0x0A]
     [js ''Find recent top deals based on the query: "'' @ searchQuery @ js ''".'',
      js ''        Provide a list of up to '' @ decimal INITIAL_DEALS_COUNT @ js '' deals.'',
      js ''        For each deal, extract or infer: title, a short description, original price, discounted price, merchant name, and a product category.'',
      js ''        Format the output ONLY as a JSON array of objects with keys: "title", "description", "originalPrice", "discountedPrice", "merchant", "category".'',
      js ''        Do not include any text before or after the JSON array.'',
      js ''        If price information is not available, you can state "Price varies" or omit price fields for that specific deal.'',
      js ''        Focus on concrete deals, not general advice.'']\<close>

text \<open>
  The request handed to the oracle. With grounding, the prompt is replaced, the search tool
  is attached and \<^verbatim>\<open>responseMimeType\<close> is deleted from the configuration.
\<close>

definition generation_request :: "UserPreferences \<Rightarrow> bool \<Rightarrow> request" where
  "generation_request preferences useSearchGrounding =
     (let contents0 = [\<lparr>role = js ''user'', parts = [generation_prompt preferences]\<rparr>];
          config0 = \<lparr>responseMimeType = Some (js ''application/json''), tools = None\<rparr>
      in if useSearchGrounding then
           \<lparr>model = GEMINI_MODEL_TEXT,
            contents = [\<lparr>role = js ''user'', parts = [searchPrompt (searchQuery_of preferences)]\<rparr>],
            config = config0\<lparr>tools := Some [GoogleSearch], responseMimeType := None\<rparr>\<rparr>
         else
           \<lparr>model = GEMINI_MODEL_TEXT, contents = contents0, config = config0\<rparr>)"

text \<open>
  The callback of \<^verbatim>\<open>map\<close>: the item's own properties, then \<^verbatim>\<open>id\<close>, then
  \<^verbatim>\<open>imageUrl\<close>, the two written after the spread and so over any member of the same name.
\<close>

definition image_seed :: "platform \<Rightarrow> json \<Rightarrow> nat \<Rightarrow> js_error + jsstring" where
  "image_seed plat deal index =
     (case read_property deal (js ''title'') of
        Inl e \<Rightarrow> Inl e
      | Inr t \<Rightarrow>
          (case (case t of
                   Some v \<Rightarrow> if truthy v then interpolate plat (Some v)
                             else Inr (js ''deal-'' @ decimal index)
                 | None \<Rightarrow> Inr (js ''deal-'' @ decimal index)) of
             Inl e \<Rightarrow> Inl e
           | Inr s \<Rightarrow> (case encodeURIComponent s of None \<Rightarrow> Inl uriError | Some enc \<Rightarrow> Inr enc)))"

definition deal_with_id :: "platform \<Rightarrow> json \<Rightarrow> nat \<Rightarrow> js_error + json" where
  "deal_with_id plat deal index =
     (case image_seed plat deal index of
        Inl e \<Rightarrow> Inl e
      | Inr seed \<Rightarrow>
          Inr (JObject (own_properties deal @
            [(js ''id'', JString (decimal (dateNow plat index) @ js ''-'' @ decimal index)),
             (js ''imageUrl'',
              JString (js ''https://picsum.photos/seed/'' @ seed @ js ''/300/200''))])))"

text \<open>\<^verbatim>\<open>items.map(callback)\<close> from index \<open>index\<close> on; the first exception ends it.\<close>

fun map_deals :: "platform \<Rightarrow> json list \<Rightarrow> nat \<Rightarrow> js_error + json list" where
  "map_deals plat [] index = Inr []"
| "map_deals plat (deal # rest) index =
     (case deal_with_id plat deal index of
        Inl e \<Rightarrow> Inl e
      | Inr d \<Rightarrow> (case map_deals plat rest (Suc index) of Inl e \<Rightarrow> Inl e | Inr ds \<Rightarrow> Inr (d # ds)))"

text \<open>
  \<^verbatim>\<open>(parsedDeals || []).map(...)\<close>: a falsy value gives the empty array; a truthy value
  that is not an array has no \<^verbatim>\<open>map\<close> to call, which is a TypeError.
\<close>

definition dealsWithIds :: "platform \<Rightarrow> json \<Rightarrow> js_error + json list" where
  "dealsWithIds plat parsedDeals =
     (if \<not> truthy parsedDeals then Inr []
      else (case parsedDeals of
              JArray items \<Rightarrow> map_deals plat items 0
            | _ \<Rightarrow> Inl typeError))"

record generated =
  deals :: "json list"
  groundingMetadata :: "GroundingMetadata option"

text \<open>The \<^verbatim>\<open>catch\<close> block of \<^verbatim>\<open>generateDeals\<close>: what is thrown to the caller.\<close>

definition generateDeals_catch :: "js_error \<Rightarrow> js_error" where
  "generateDeals_catch error =
     (if message error = js ''API_KEY_MISSING'' then error
      else Error (js ''Failed to generate deals from AI.''))"

text \<open>
  \<^verbatim>\<open>generateDeals(preferences, useSearchGrounding)\<close>. The result is the promise's outcome
  (\<open>Inl\<close> a rejection), the module state afterwards and the requests sent to the oracle.
  The console output is not modelled.
\<close>

definition generateDeals ::
  "platform \<Rightarrow> jsstring option \<Rightarrow> oracle_fn \<Rightarrow> service \<Rightarrow> UserPreferences \<Rightarrow> bool
     \<Rightarrow> (js_error + generated) \<times> service \<times> request list" where
  "generateDeals plat apiKey generateContent st preferences useSearchGrounding =
     (case initializeAi apiKey st of
        Inl e \<Rightarrow> (Inl (generateDeals_catch e), st, [])
      | Inr (localAi, st') \<Rightarrow>
          (let req = generation_request preferences useSearchGrounding
           in case generateContent localAi req of
                Inl e \<Rightarrow> (Inl (generateDeals_catch e), st', [req])
              | Inr response \<Rightarrow>
                  (case dealsWithIds plat (parseJsonFromText (response_text response) True) of
                     Inl e \<Rightarrow> (Inl (generateDeals_catch e), st', [req])
                   | Inr ds \<Rightarrow>
                       (Inr \<lparr>deals = ds,
                             groundingMetadata = candidate_groundingMetadata response\<rparr>,
                        st', [req]))))"

subsection \<open>\<^verbatim>\<open>verifyDeal\<close>\<close>

text \<open>\<^verbatim>\<open>${deal.k}\<close> in the prompt.\<close>

definition property_text :: "platform \<Rightarrow> json \<Rightarrow> jsstring \<Rightarrow> js_error + jsstring" where
  "property_text plat deal k =
     (case read_property deal k of Inl e \<Rightarrow> Inl e | Inr v \<Rightarrow> interpolate plat v)"

definition verification_prompt :: "platform \<Rightarrow> json \<Rightarrow> js_error + jsstring" where
  \<open>verification_prompt plat deal =
     (case property_text plat deal (js ''title'') of
        Inl e \<Rightarrow> Inl e | Inr title_text \<Rightarrow>
      case property_text plat deal (js ''description'') of
        Inl e \<Rightarrow> Inl e | Inr description_text \<Rightarrow>
      case property_text plat deal (js ''originalPrice'') of
        Inl e \<Rightarrow> Inl e | Inr originalPrice_text \<Rightarrow>
      case property_text plat deal (js ''discountedPrice'') of
        Inl e \<Rightarrow> Inl e | Inr discountedPrice_text \<Rightarrow>
      case property_text plat deal (js ''merchant'') of
        Inl e \<Rightarrow> Inl e | Inr merchant_text \<Rightarrow>
      case property_text plat deal (js ''category'') of
        Inl e \<Rightarrow> Inl e | Inr category_text \<Rightarrow>
      Inr (join [0x0A]
     [js ''Given the following deal information:'',
      js ''Title: '' @ title_text,
      js ''Description: '' @ description_text,
      js ''Original Price: '' @ originalPrice_text,
      js ''Discounted Price: '' @ discountedPrice_text,
      js ''Merchant: '' @ merchant_text,
      js ''Category: '' @ category_text,
      [],
      js ''Assess the authenticity and value of this deal. Provide a brief verification summary (1-2 sentences) and a score from 1 (likely scam/bad deal) to 5 (excellent, trustworthy deal).'',
      js ''Consider factors like typical product pricing for the category, merchant reputation (if generally known), and plausibility of the discount.'',
      js ''Output ONLY the result as a JSON object with keys: "summary" (string) and "score" (number). Do not include any text before or after the JSON object.'',
      js ''Example output:'',
      js ''{'',
      js ''  "summary": "This seems like a legitimate and good value deal from a reputable merchant, given the typical price range for this product type.",'',
      js ''  "score": 4'',
      js ''}'']))\<close>

definition verification_request :: "jsstring \<Rightarrow> request" where
  "verification_request prompt =
     \<lparr>model = GEMINI_MODEL_TEXT,
      contents = [\<lparr>role = js ''user'', parts = [prompt]\<rparr>],
      config = \<lparr>responseMimeType = Some (js ''application/json''), tools = None\<rparr>\<rparr>"

text \<open>A \<^verbatim>\<open>DealVerification\<close> object literal \<^verbatim>\<open>{ summary: s, score: 0 }\<close>.\<close>

definition failed_verification :: "jsstring \<Rightarrow> json" where
  "failed_verification s = JObject [(js ''summary'', JString s), (js ''score'', JNumber (js ''0''))]"

text \<open>The \<^verbatim>\<open>catch\<close> block of \<^verbatim>\<open>verifyDeal\<close>: rethrow, or the value returned instead.\<close>

definition verifyDeal_catch :: "js_error \<Rightarrow> js_error + json" where
  "verifyDeal_catch error =
     (if message error = js ''API_KEY_MISSING'' then Inl error
      else Inr (failed_verification (js ''Failed to connect to AI for verification.'')))"

text \<open>
  \<^verbatim>\<open>verifyDeal(deal)\<close>, with the same three results as \<open>generateDeals\<close>. The value returned
  is the decoded one itself whenever it is truthy.
\<close>

definition verifyDeal ::
  "platform \<Rightarrow> jsstring option \<Rightarrow> oracle_fn \<Rightarrow> service \<Rightarrow> json
     \<Rightarrow> (js_error + json) \<times> service \<times> request list" where
  "verifyDeal plat apiKey generateContent st deal =
     (case initializeAi apiKey st of
        Inl e \<Rightarrow> (verifyDeal_catch e, st, [])
      | Inr (localAi, st') \<Rightarrow>
          (case verification_prompt plat deal of
             Inl e \<Rightarrow> (verifyDeal_catch e, st', [])
           | Inr prompt \<Rightarrow>
               (let req = verification_request prompt
                in case generateContent localAi req of
                     Inl e \<Rightarrow> (verifyDeal_catch e, st', [req])
                   | Inr response \<Rightarrow>
                       (let verificationResult = parseJsonFromText (response_text response) False
                        in if \<not> truthy verificationResult then
                             (Inr (failed_verification
                                (js ''AI could not verify this deal due to response format error.'')),
                              st', [req])
                           else (Inr verificationResult, st', [req])))))"

section \<open>The caller (\<^verbatim>\<open>App\<close>)\<close>

text \<open>The state variables of the component that \<^verbatim>\<open>fetchDeals\<close> and \<^verbatim>\<open>handleVerifyDeal\<close> set.\<close>

record app =
  app_deals :: "json list"
  app_error :: "jsstring option"
  apiKeyMissing :: bool
  isLoading :: bool
  app_groundingMetadata :: "GroundingMetadata option"
  selectedDealForVerification :: "json option"
  verificationData :: "json option"
  isVerifying :: bool

text \<open>The placeholder deal of index \<open>i\<close>.\<close>

definition mock_deal :: "platform \<Rightarrow> nat \<Rightarrow> json" where
  "mock_deal plat i =
     JObject
       [(js ''id'', JString (js ''mock-'' @ decimal i)),
        (js ''title'', JString (js ''Mock Deal Title '' @ decimal (i + 1))),
        (js ''description'', JString (js ''This is a placeholder deal because the AI service is unavailable. Please configure API_KEY.'')),
        (js ''originalPrice'', JString (js ''$'' @ fst (randomPrices plat i))),
        (js ''discountedPrice'', JString (js ''$'' @ snd (randomPrices plat i))),
        (js ''merchant'', JString (js ''Mock Merchant'')),
        (js ''category'', JString (DEAL_CATEGORIES ! (i mod length DEAL_CATEGORIES))),
        (js ''imageUrl'', JString (js ''https://picsum.photos/seed/mockdeal'' @ decimal i @ js ''/300/200''))]"

text \<open>
  \<^verbatim>\<open>fetchDeals(prefs, useSearchGrounding)\<close>: the component state and the module state
  after the call has settled.
\<close>

definition fetchDeals ::
  "platform \<Rightarrow> jsstring option \<Rightarrow> oracle_fn \<Rightarrow> service \<Rightarrow> app \<Rightarrow> UserPreferences \<Rightarrow> bool
     \<Rightarrow> app \<times> service" where
  "fetchDeals plat apiKey generateContent st a prefs useSearchGrounding =
     (let a1 = a\<lparr>isLoading := True, app_error := None, app_groundingMetadata := None\<rparr>
      in case generateDeals plat apiKey generateContent st prefs useSearchGrounding of
           (Inr g, st', calls) \<Rightarrow>
             (a1\<lparr>app_deals := deals g,
                 app_groundingMetadata := groundingMetadata g,
                 isLoading := False\<rparr>, st')
         | (Inl err, st', calls) \<Rightarrow>
             (if message err = js ''API_KEY_MISSING'' then
                a1\<lparr>apiKeyMissing := True,
                    app_error := Some MOCK_API_KEY_NOTICE,
                    app_deals := map (mock_deal plat) [0..<INITIAL_DEALS_COUNT],
                    isLoading := False\<rparr>
              else
                a1\<lparr>app_error := Some (GEMINI_ERROR_MESSAGE @ js '' Details: '' @ message err),
                    app_deals := [],
                    isLoading := False\<rparr>,
              st'))"

text \<open>\<^verbatim>\<open>handleVerifyDeal(deal)\<close>.\<close>

definition handleVerifyDeal ::
  "platform \<Rightarrow> jsstring option \<Rightarrow> oracle_fn \<Rightarrow> service \<Rightarrow> app \<Rightarrow> json \<Rightarrow> app \<times> service" where
  "handleVerifyDeal plat apiKey generateContent st a deal =
     (let a1 = a\<lparr>selectedDealForVerification := Some deal, isVerifying := True,
                  verificationData := None\<rparr>
      in if apiKeyMissing a1 then
           (a1\<lparr>verificationData :=
                  Some (failed_verification (js ''AI Verification is unavailable. API_KEY is missing.'')),
               isVerifying := False\<rparr>, st)
         else
           (case verifyDeal plat apiKey generateContent st deal of
              (Inr verification, st', calls) \<Rightarrow>
                (a1\<lparr>verificationData := Some verification, isVerifying := False\<rparr>, st')
            | (Inl err, st', calls) \<Rightarrow>
                (a1\<lparr>verificationData :=
                       Some (failed_verification (js ''Failed to get verification from AI.'')),
                    isVerifying := False\<rparr>, st')))"

section \<open>Sample inputs\<close>

text \<open>
  A platform with a fixed clock, fixed placeholder prices and a string conversion that
  always raises; oracles that answer every request with one text, or reject every request
  with one message; and a deal, preferences and an initial component state.
\<close>

definition demo_platform :: platform where
  "demo_platform = \<lparr>dateNow = (\<lambda>i. 1700000000000), toStringJS = (\<lambda>v. None),
                     randomPrices = (\<lambda>i. (js ''120.50'', js ''45.25''))\<rparr>"

definition demo_preferences :: UserPreferences where
  "demo_preferences = \<lparr>categories = [js ''Books''], location = [], keywords = js ''laptop''\<rparr>"

definition answering :: "jsstring \<Rightarrow> oracle_fn" where
  "answering t = (\<lambda>client req. Inr \<lparr>response_text = t, candidate_groundingMetadata = None\<rparr>)"

definition failing :: "jsstring \<Rightarrow> oracle_fn" where
  "failing m = (\<lambda>client req. Inl (Error m))"

definition demo_deal :: json where
  "demo_deal = JObject [(js ''id'', JString (js ''1-0'')), (js ''title'', JString (js ''Lamp''))]"

definition demo_app :: app where
  "demo_app = \<lparr>app_deals = [], app_error = None, apiKeyMissing = False, isLoading = False,
     app_groundingMetadata = None, selectedDealForVerification = None, verificationData = None,
     isVerifying = False\<rparr>"

text \<open>An item that brings its own image reference, and the truncated array of the specification.\<close>

definition item_with_image :: json where
  "item_with_image = JObject [(js ''title'', JString (js ''A'')),
                              (js ''imageUrl'', JString (js ''http://x/a.png''))]"

definition truncated_array :: jsstring where
  "truncated_array = js ''[{\"title\":\"A\"},{\"title\":\"B\"''"

section \<open>Notions for the proofs\<close>

subsection \<open>Well-formed texts\<close>

text \<open>
  A well-formed JSON object as a piece of text: a text that \<^verbatim>\<open>JSON.parse\<close> accepts and
  reads as an object, and the value read from it.
\<close>

fun is_object :: "json \<Rightarrow> bool" where
  "is_object (JObject kvs) = True"
| "is_object v = False"

definition object_text :: "jsstring \<Rightarrow> json \<Rightarrow> bool" where
  "object_text s v = (json_parse s = Some v \<and> is_object v)"

text \<open>
  The grammar the parser follows, as inductive predicates: \<open>string_body x u\<close> says that \<open>x\<close>
  is the rest of a string literal after its opening quote, closing quote included, and \<open>u\<close>
  the string it denotes; \<open>value_text x v\<close> that \<open>x\<close> is the text of the value \<open>v\<close> without
  surrounding whitespace; \<open>elements_text\<close> and \<open>members_text\<close> describe the inside of an array
  and of an object, from the first element or member to the closing bracket or brace.
\<close>

inductive string_body :: "jsstring \<Rightarrow> jsstring \<Rightarrow> bool" where
  closing: "string_body [quote] []"
| plain: "c \<noteq> quote \<Longrightarrow> c \<noteq> backslash \<Longrightarrow> \<not> c < 0x20 \<Longrightarrow> string_body x u
          \<Longrightarrow> string_body (c # x) (c # u)"
| escape: "e \<noteq> ch CHR ''u'' \<Longrightarrow> escape_value e = Some w \<Longrightarrow> string_body x u
          \<Longrightarrow> string_body (backslash # e # x) (w # u)"
| unicode: "length h = 4 \<Longrightarrow> list_all is_hex h \<Longrightarrow> string_body x u
          \<Longrightarrow> string_body (backslash # ch CHR ''u'' # h @ x) (hex4 h # u)"

definition ws :: "jsstring \<Rightarrow> bool" where
  "ws w = list_all is_json_ws w"

definition number_text :: "jsstring \<Rightarrow> bool" where
  "number_text x = (parse_number x = Some (x, []))"

inductive value_text :: "jsstring \<Rightarrow> json \<Rightarrow> bool"
  and elements_text :: "jsstring \<Rightarrow> json list \<Rightarrow> bool"
  and members_text :: "jsstring \<Rightarrow> (jsstring \<times> json) list \<Rightarrow> bool"
where
  empty_object: "ws w \<Longrightarrow> value_text (ch CHR ''{'' # w @ [ch CHR ''}'']) (JObject [])"
| object: "ws w \<Longrightarrow> members_text m kvs \<Longrightarrow> value_text (ch CHR ''{'' # w @ m) (JObject kvs)"
| empty_array: "ws w \<Longrightarrow> value_text (ch CHR ''['' # w @ [ch CHR '']'']) (JArray [])"
| array: "ws w \<Longrightarrow> elements_text y vs \<Longrightarrow> value_text (ch CHR ''['' # w @ y) (JArray vs)"
| string: "string_body x u \<Longrightarrow> value_text (quote # x) (JString u)"
| true: "value_text (js ''true'') (JBool True)"
| false: "value_text (js ''false'') (JBool False)"
| null: "value_text (js ''null'') JNull"
| number: "number_text x \<Longrightarrow> value_text x (JNumber x)"
| last_element: "value_text x v \<Longrightarrow> ws w \<Longrightarrow> elements_text (x @ w @ [ch CHR '']'']) [v]"
| more_elements: "value_text x v \<Longrightarrow> ws w \<Longrightarrow> ws w' \<Longrightarrow> elements_text y vs
     \<Longrightarrow> elements_text (x @ w @ ch CHR '','' # w' @ y) (v # vs)"
| last_member: "string_body k ku \<Longrightarrow> ws w1 \<Longrightarrow> ws w2 \<Longrightarrow> value_text x v \<Longrightarrow> ws w3
     \<Longrightarrow> members_text (quote # k @ w1 @ ch CHR '':'' # w2 @ x @ w3 @ [ch CHR ''}'']) [(ku, v)]"
| more_members: "string_body k ku \<Longrightarrow> ws w1 \<Longrightarrow> ws w2 \<Longrightarrow> value_text x v \<Longrightarrow> ws w3
     \<Longrightarrow> ws w4 \<Longrightarrow> members_text m kvs
     \<Longrightarrow> members_text (quote # k @ w1 @ ch CHR '':'' # w2 @ x @ w3 @ ch CHR '','' # w4 @ m)
           ((ku, v) # kvs)"

text \<open>
  What may follow a run of digits, and what may follow a number, without being read as
  part of it; the characters of a number; the characters a value begins and ends with.
\<close>

definition digit_free :: "jsstring \<Rightarrow> bool" where
  "digit_free r = (case r of [] \<Rightarrow> True | c # _ \<Rightarrow> \<not> is_digit c)"

definition number_follow :: "jsstring \<Rightarrow> bool" where
  "number_follow r =
     (case r of [] \<Rightarrow> True
      | c # _ \<Rightarrow> \<not> is_digit c \<and> c \<noteq> ch CHR ''.'' \<and> c \<noteq> ch CHR ''e'' \<and> c \<noteq> ch CHR ''E'')"

definition number_char :: "nat \<Rightarrow> bool" where
  "number_char c = (is_digit c \<or> c = ch CHR ''-'' \<or> c = ch CHR ''+'' \<or> c = ch CHR ''.''
                     \<or> c = ch CHR ''e'' \<or> c = ch CHR ''E'')"

definition value_start :: "nat \<Rightarrow> bool" where
  "value_start c = (c = ch CHR ''{'' \<or> c = ch CHR ''['' \<or> c = quote \<or> c = ch CHR ''t''
     \<or> c = ch CHR ''f'' \<or> c = ch CHR ''n'' \<or> c = ch CHR ''-'' \<or> is_digit c)"

definition value_end :: "nat \<Rightarrow> bool" where
  "value_end c = (c = ch CHR ''}'' \<or> c = ch CHR '']'' \<or> c = quote \<or> c = ch CHR ''e''
     \<or> c = ch CHR ''l'' \<or> is_digit c)"

text \<open>A text of JavaScript whitespace only.\<close>

definition js_blank :: "jsstring \<Rightarrow> bool" where
  "js_blank w = list_all is_js_ws w"

subsection \<open>The salvage loop, character by character\<close>

text \<open>
  The part of the loop's state that decides its branches: the number of backslashes just
  before the position, whether the position is inside a string, and the brace depth.
  \<open>stays_above lo st x\<close> says that the depth is at least \<open>lo\<close> after every character of
  \<open>x\<close>; a \<open>balanced\<close> text returns to the depth it started from, outside a string; a
  \<open>closing\<close> text is a balanced one followed by a closing brace.
\<close>

definition lex_step :: "nat \<times> bool \<times> int \<Rightarrow> nat \<Rightarrow> nat \<times> bool \<times> int" where
  "lex_step st c =
     (case st of (count, ins, dep) \<Rightarrow>
        let ins' = (if c = quote \<and> even count then \<not> ins else ins);
            dep' = (if \<not> ins' then
                      (if c = ch CHR ''{'' then dep + 1
                       else if c = ch CHR ''}'' then dep - 1
                       else dep)
                    else dep)
        in (if c = backslash then Suc count else 0, ins', dep'))"

fun stays_above :: "int \<Rightarrow> nat \<times> bool \<times> int \<Rightarrow> jsstring \<Rightarrow> bool" where
  "stays_above lo st [] = True"
| "stays_above lo st (c # cs) =
     (lo \<le> snd (snd (lex_step st c)) \<and> stays_above lo (lex_step st c) cs)"

definition balanced :: "jsstring \<Rightarrow> bool" where
  "balanced x = (\<forall>count d. even count \<longrightarrow>
     (\<exists>count'. even count' \<and> foldl lex_step (count, False, d) x = (count', False, d))
     \<and> stays_above d (count, False, d) x)"

definition closing :: "jsstring \<Rightarrow> bool" where
  "closing m = (m \<noteq> [] \<and> last m = ch CHR ''}'' \<and> balanced (butlast m))"

definition string_closing :: "jsstring \<Rightarrow> bool" where
  "string_closing k = (\<forall>count d. even count \<longrightarrow>
     (\<exists>count'. even count' \<and> foldl lex_step (count, True, d) k = (count', False, d))
     \<and> stays_above d (count, True, d) k)"

text \<open>
  The loop as a pass over the characters that carries the backslash count along, and the
  values the loop body gives \<^verbatim>\<open>inString\<close> and \<^verbatim>\<open>depth\<close>.
\<close>

definition scan_chars :: "nat \<times> scan_state \<Rightarrow> jsstring \<Rightarrow> nat \<times> scan_state" where
  "scan_chars = foldl (\<lambda>(count, st) c. (if c = backslash then Suc count else 0, scan_step count c st))"

definition next_inString :: "nat \<Rightarrow> nat \<Rightarrow> scan_state \<Rightarrow> bool" where
  "next_inString count c st = (if c = quote \<and> even count then \<not> inString st else inString st)"

definition next_depth :: "nat \<Rightarrow> nat \<Rightarrow> scan_state \<Rightarrow> int" where
  "next_depth count c st =
     (if \<not> next_inString count c st then
        (if c = ch CHR ''{'' then depth st + 1
         else if c = ch CHR ''}'' then depth st - 1
         else depth st)
      else depth st)"

section \<open>Evaluation and basic facts\<close>

lemmas char_defs = quote_def backslash_def backticks_def is_digit_def is_hex_def is_word_def
  is_json_ws_def is_js_ws_def
lemmas str_defs = trimStart_def trimEnd_def trim_def startsWith_def endsWith_def substring_def
lemmas parse_defs = skip_ws_def hex_val_def hex4_def escape_value_def parse_int_part_def
  parse_digits1_def parse_frac_def parse_exp_def parse_number_def json_parse_def
lemmas decode_defs = fenceMatch_def upto_last_def backslashCount_def scan_step_def scan_char_def
  scan_init_def
  iterative_salvage_def parseJsonFromText_def
lemmas value_defs = unsigned_literal_def fraction_digits_def mantissa_def exponent_part_def
  exponent_def denotes_zero_def digits_val_def typeError_def uriError_def field_def
  is_unreserved_def hex_digit_def percent_def utf8_def interpolate_def

section \<open>The grammar behind the parser\<close>

subsection \<open>Whitespace\<close>

lemma skip_ws_split: "\<exists>w. ws w \<and> s = w @ skip_ws s"
  unfolding ws_def skip_ws_def
  by (metis takeWhile_dropWhile_id list_all_iff set_takeWhileD)

lemma skip_ws_Cons_not_ws: "skip_ws s = d # ds \<Longrightarrow> \<not> is_json_ws d"
  unfolding skip_ws_def by (metis hd_dropWhile list.sel(1) list.distinct(1))

lemma skip_ws_append: "ws w \<Longrightarrow> skip_ws (w @ s) = skip_ws s"
  unfolding ws_def skip_ws_def by (induction w) auto

lemma skip_ws_not_ws [simp]: "\<not> is_json_ws c \<Longrightarrow> skip_ws (c # s) = c # s"
  by (simp add: skip_ws_def)

subsection \<open>Strings\<close>

lemma parse_string_body_sound:
  "parse_string_body s = Some (u, r) \<Longrightarrow> \<exists>x. s = x @ r \<and> string_body x u"
proof (induction s arbitrary: u r rule: parse_string_body.induct)
  case 1
  then show ?case by simp
next
  case (2 c cs)
  show ?case
  proof (cases "c = quote")
    case True
    with "2.prems" have "u = []" "r = cs" by auto
    then show ?thesis using True string_body.closing by auto
  next
    case nq: False
    show ?thesis
    proof (cases "c = backslash")
      case True
      then obtain e es where cs: "cs = e # es" using "2.prems" nq by (cases cs) auto
      show ?thesis
      proof (cases "e = ch CHR ''u''")
        case True
        with "2.prems" nq \<open>c = backslash\<close> cs obtain u' where
          h: "4 \<le> length es" "list_all is_hex (take 4 es)"
          and p: "parse_string_body (drop 4 es) = Some (u', r)" and u: "u = hex4 (take 4 es) # u'"
          by (auto split: if_splits)
        from "2.IH"(1) [OF nq \<open>c = backslash\<close> cs True _ p] h
        obtain x where x: "drop 4 es = x @ r" "string_body x u'" by auto
        have "string_body (backslash # ch CHR ''u'' # take 4 es @ x) (hex4 (take 4 es) # u')"
          using h x by (intro string_body.unicode) auto
        moreover have "c # cs = (backslash # ch CHR ''u'' # take 4 es @ x) @ r"
          using cs True \<open>c = backslash\<close> x(1) by (metis append_Cons append_assoc append_take_drop_id)
        ultimately show ?thesis using u by blast
      next
        case False
        with "2.prems" nq \<open>c = backslash\<close> cs obtain w u' where
          w: "escape_value e = Some w" and p: "parse_string_body es = Some (u', r)" and u: "u = w # u'"
          by (auto split: option.splits)
        from "2.IH"(2) [OF nq \<open>c = backslash\<close> cs False w p]
        obtain x where x: "es = x @ r" "string_body x u'" by auto
        have "string_body (backslash # e # x) (w # u')"
          using False w x by (intro string_body.escape)
        then show ?thesis using cs \<open>c = backslash\<close> x(1) u by auto
      qed
    next
      case False
      with "2.prems" nq obtain u' where
        c: "\<not> c < 0x20" and p: "parse_string_body cs = Some (u', r)" and u: "u = c # u'"
        by (auto split: if_splits)
      from "2.IH"(3) [OF nq False c p]
      obtain x where x: "cs = x @ r" "string_body x u'" by auto
      have "string_body (c # x) (c # u')"
        using nq False c x by (intro string_body.plain)
      then show ?thesis using x(1) u by auto
    qed
  qed
qed

subsection \<open>Numbers\<close>

lemma takeWhile_takeWhile_append:
  "takeWhile P (takeWhile P s @ r) = takeWhile P s @ takeWhile P r"
  by (induction s) auto

lemma dropWhile_takeWhile_append:
  "dropWhile P (takeWhile P s @ r) = dropWhile P r"
  by (induction s) auto

lemma dropWhile_takeWhile_same [simp]: "dropWhile P (takeWhile P s) = []"
  by (induction s) auto

lemma list_all_takeWhile [simp]: "list_all P (takeWhile P s)"
  by (induction s) auto

lemma is_digit_zero [simp]: "is_digit 48"
  by (simp add: is_digit_def)

lemma takeWhile_digits_append:
  "digit_free r' \<Longrightarrow> takeWhile is_digit (takeWhile is_digit s @ r') = takeWhile is_digit s"
  by (cases r') (auto simp: digit_free_def takeWhile_takeWhile_append)

lemma dropWhile_digits_append:
  "digit_free r' \<Longrightarrow> dropWhile is_digit (takeWhile is_digit s @ r') = r'"
  by (cases r') (auto simp: digit_free_def dropWhile_takeWhile_append)

lemma number_follow_digit_free [simp]: "number_follow r \<Longrightarrow> digit_free r"
  by (auto simp: number_follow_def digit_free_def split: list.splits)

lemma digit_free_Cons [simp]: "digit_free (c # r) = (\<not> is_digit c)"
  by (simp add: digit_free_def)

lemma digit_free_Nil [simp]: "digit_free []"
  by (simp add: digit_free_def)

lemma parse_digits1_shape:
  assumes "parse_digits1 s = Some (d, r)"
  shows "s = d @ r" "d \<noteq> []" "list_all is_digit d"
    "digit_free r' \<Longrightarrow> parse_digits1 (d @ r') = Some (d, r')"
  using assms
  by (auto simp: parse_digits1_def takeWhile_digits_append dropWhile_digits_append
        split: if_splits)

lemma parse_int_part_shape:
  assumes "parse_int_part s = Some (d, r)"
  shows "s = d @ r" "d \<noteq> []" "list_all is_digit d"
    "digit_free r' \<Longrightarrow> parse_int_part (d @ r') = Some (d, r')"
proof -
  obtain c cs where s: "s = c # cs" using assms by (cases s) (auto simp: parse_int_part_def)
  show "s = d @ r" "d \<noteq> []" "list_all is_digit d"
    using assms s
    by (auto simp: parse_int_part_def split: if_splits)
  assume f: "digit_free r'"
  show "parse_int_part (d @ r') = Some (d, r')"
  proof (cases "c = ch CHR ''0''")
    case True
    then show ?thesis using assms s by (auto simp: parse_int_part_def)
  next
    case False
    then have d: "d = takeWhile is_digit s" and c: "is_digit c"
      using assms s by (auto simp: parse_int_part_def split: if_splits)
    then obtain d' where d': "d = c # d'" using s by auto
    have "takeWhile is_digit (d @ r') = d" "dropWhile is_digit (d @ r') = r'"
      using f d takeWhile_digits_append dropWhile_digits_append by auto
    then show ?thesis using False c d' by (simp add: parse_int_part_def)
  qed
qed

lemma parse_frac_shape:
  assumes "parse_frac s = Some (f, r)"
  shows "s = f @ r" "list_all number_char f" "f = [] \<or> (hd f = ch CHR ''.'' \<and> is_digit (last f))"
    "digit_free r' \<Longrightarrow> (f = [] \<longrightarrow> (case r' of [] \<Rightarrow> True | c # _ \<Rightarrow> c \<noteq> ch CHR ''.''))
       \<Longrightarrow> parse_frac (f @ r') = Some (f, r')"
proof -
  show "s = f @ r" "list_all number_char f" "f = [] \<or> (hd f = ch CHR ''.'' \<and> is_digit (last f))"
    using assms parse_digits1_shape(1-3)
    by (auto simp: parse_frac_def number_char_def list_all_iff split: list.splits if_splits)
  assume f: "digit_free r'" and e: "f = [] \<longrightarrow> (case r' of [] \<Rightarrow> True | c # _ \<Rightarrow> c \<noteq> ch CHR ''.'')"
  show "parse_frac (f @ r') = Some (f, r')"
  proof (cases f)
    case Nil
    then show ?thesis using e by (auto simp: parse_frac_def split: list.splits)
  next
    case (Cons a f')
    then obtain cs where s: "s = ch CHR ''.'' # cs" and a: "a = ch CHR ''.''"
      and p: "parse_digits1 cs = Some (f', r)"
      using assms by (auto simp: parse_frac_def split: list.splits if_splits)
    show ?thesis using parse_digits1_shape(4) [OF p f] Cons a by (simp add: parse_frac_def)
  qed
qed

lemma parse_exp_shape:
  assumes "parse_exp s = Some (f, r)"
  shows "s = f @ r" "list_all number_char f"
    "f = [] \<or> ((hd f = ch CHR ''e'' \<or> hd f = ch CHR ''E'') \<and> is_digit (last f))"
    "digit_free r' \<Longrightarrow>
      (f = [] \<longrightarrow> (case r' of [] \<Rightarrow> True | c # _ \<Rightarrow> c \<noteq> ch CHR ''e'' \<and> c \<noteq> ch CHR ''E''))
       \<Longrightarrow> parse_exp (f @ r') = Some (f, r')"
proof -
  show "s = f @ r" "list_all number_char f"
    "f = [] \<or> ((hd f = ch CHR ''e'' \<or> hd f = ch CHR ''E'') \<and> is_digit (last f))"
    using assms parse_digits1_shape(1-3)
    by (auto simp: parse_exp_def number_char_def list_all_iff split: list.splits if_splits)
  assume f: "digit_free r'"
    and e: "f = [] \<longrightarrow> (case r' of [] \<Rightarrow> True | c # _ \<Rightarrow> c \<noteq> ch CHR ''e'' \<and> c \<noteq> ch CHR ''E'')"
  show "parse_exp (f @ r') = Some (f, r')"
  proof (cases f)
    case Nil
    then show ?thesis using e by (auto simp: parse_exp_def split: list.splits)
  next
    case (Cons a f')
    then obtain cs where s: "s = a # cs" and a: "a = ch CHR ''e'' \<or> a = ch CHR ''E''"
      using assms by (auto simp: parse_exp_def split: list.splits if_splits)
    then obtain d ds where cs: "cs = d # ds"
      using assms by (cases cs) (auto simp: parse_exp_def split: list.splits if_splits)
    show ?thesis
    proof (cases "d = ch CHR ''+'' \<or> d = ch CHR ''-''")
      case True
      then obtain g where p: "parse_digits1 ds = Some (g, r)" and g: "f' = d # g"
        using assms s a cs Cons by (auto simp: parse_exp_def split: list.splits if_splits)
      show ?thesis using parse_digits1_shape(4) [OF p f] Cons a g True
        by (auto simp: parse_exp_def)
    next
      case False
      then have p: "parse_digits1 cs = Some (f', r)"
        using assms s a cs Cons by (auto simp: parse_exp_def split: list.splits if_splits)
      from parse_digits1_shape(1,2) [OF p] cs obtain g where g: "f' = d # g"
        by (cases f') auto
      show ?thesis using parse_digits1_shape(4) [OF p f] Cons a g False
        by (auto simp: parse_exp_def)
    qed
  qed
qed

lemma digit_free_append:
  "(f = [] \<or> \<not> is_digit (hd f)) \<Longrightarrow> digit_free r \<Longrightarrow> digit_free (f @ r)"
  by (cases f) (auto simp: digit_free_def)

lemma is_digit_not_special [simp]:
  "is_digit c \<Longrightarrow> c \<noteq> 45" "is_digit c \<Longrightarrow> c \<noteq> 46" "is_digit c \<Longrightarrow> c \<noteq> 101"
  "is_digit c \<Longrightarrow> c \<noteq> 69" "is_digit c \<Longrightarrow> c \<noteq> 43"
  "\<not> is_digit 45" "\<not> is_digit 46" "\<not> is_digit 101" "\<not> is_digit 69" "\<not> is_digit 43"
  by (auto simp: is_digit_def)

lemma last_digits: "list_all is_digit d \<Longrightarrow> d \<noteq> [] \<Longrightarrow> is_digit (last d)"
  by (simp add: list_all_iff)

lemma hd_digits: "list_all is_digit d \<Longrightarrow> d \<noteq> [] \<Longrightarrow> is_digit (hd d)"
  by (simp add: list_all_iff)

lemma number_char_digit: "list_all is_digit d \<Longrightarrow> list_all number_char d"
  by (auto simp: list_all_iff number_char_def)

lemma parse_number_shape:
  assumes "parse_number s = Some (lit, r)"
  shows "s = lit @ r" "lit \<noteq> []" "list_all number_char lit"
    "hd lit = ch CHR ''-'' \<or> is_digit (hd lit)" "is_digit (last lit)"
    "number_follow r' \<Longrightarrow> parse_number (lit @ r') = Some (lit, r')"
proof -
  define sg :: jsstring where "sg = (if s \<noteq> [] \<and> hd s = ch CHR ''-'' then [ch CHR ''-''] else [])"
  define s1 where "s1 = (if s \<noteq> [] \<and> hd s = ch CHR ''-'' then tl s else s)"
  have s: "s = sg @ s1" by (cases s) (auto simp: sg_def s1_def)
  have split: "(case s of [] \<Rightarrow> ([], s) | c # cs \<Rightarrow> if c = ch CHR ''-'' then ([c], cs) else ([], s))
     = (sg, s1)"
    by (cases s) (auto simp: sg_def s1_def)
  from assms obtain ip s2 fp s3 ep where
    ip: "parse_int_part s1 = Some (ip, s2)" and fp: "parse_frac s2 = Some (fp, s3)"
    and ep: "parse_exp s3 = Some (ep, r)" and lit: "lit = sg @ ip @ fp @ ep"
    unfolding parse_number_def split by (auto split: option.splits)
  note I = parse_int_part_shape [OF ip] and F = parse_frac_shape [OF fp] and E = parse_exp_shape [OF ep]
  show "s = lit @ r" using s lit I(1) F(1) E(1) by simp
  show "lit \<noteq> []" using lit I(2) by simp
  have "list_all number_char sg" by (simp add: sg_def number_char_def)
  then show "list_all number_char lit" using lit I(3) F(2) E(2) number_char_digit by simp
  show "hd lit = ch CHR ''-'' \<or> is_digit (hd lit)"
    using lit I(2,3) hd_digits [of ip] by (auto simp: sg_def)
  show "is_digit (last lit)"
    using lit I(2,3) F(3) E(3) last_digits [of ip] by (cases "ep = []"; cases "fp = []") auto
  assume nf: "number_follow r'"
  have a: "digit_free r'" using nf by simp
  have b: "digit_free (ep @ r')"
    using E(3) a digit_free_append [of ep r'] by auto
  have c: "digit_free (fp @ ep @ r')"
    using F(3) b digit_free_append [of fp "ep @ r'"] by auto
  have pe: "parse_exp (ep @ r') = Some (ep, r')"
    using nf by (intro E(4) [OF a]) (auto simp: number_follow_def split: list.splits)
  have pf: "parse_frac (fp @ ep @ r') = Some (fp, ep @ r')"
  proof (intro F(4) [OF b] impI)
    assume "fp = []"
    show "case ep @ r' of [] \<Rightarrow> True | c # x \<Rightarrow> c \<noteq> ch CHR ''.''"
      using E(3) nf by (cases ep) (auto simp: number_follow_def split: list.splits)
  qed
  have pi: "parse_int_part (ip @ fp @ ep @ r') = Some (ip, fp @ ep @ r')"
    using I(4) [OF c] .
  have "(case lit @ r' of [] \<Rightarrow> ([], lit @ r')
          | c # cs \<Rightarrow> if c = ch CHR ''-'' then ([c], cs) else ([], lit @ r'))
     = (sg, ip @ fp @ ep @ r')"
  proof (cases "sg = []")
    case True
    then show ?thesis using lit I(2,3) hd_digits [of ip] by (cases ip) auto
  next
    case False
    then have "sg = [ch CHR ''-'']" by (auto simp: sg_def split: if_splits)
    then show ?thesis using lit by simp
  qed
  then show "parse_number (lit @ r') = Some (lit, r')"
    unfolding parse_number_def using pi pf pe lit by simp
qed

lemma number_text_shape:
  assumes "number_text x"
  shows "x \<noteq> []" "list_all number_char x" "hd x = ch CHR ''-'' \<or> is_digit (hd x)"
    "is_digit (last x)" "number_follow r' \<Longrightarrow> parse_number (x @ r') = Some (x, r')"
  using assms parse_number_shape [of x x "[]"] by (auto simp: number_text_def)

lemma parse_number_sound:
  "parse_number s = Some (lit, r) \<Longrightarrow> s = lit @ r \<and> number_text lit"
  using parse_number_shape(1) [of s lit r] parse_number_shape(6) [of s lit r "[]"]
  by (simp add: number_text_def number_follow_def)

subsection \<open>The parser accepts only texts of the grammar\<close>

lemma parse_value_Suc_sound:
  assumes IHe: "\<And>s vs r. parse_elements n s = Some (vs, r) \<Longrightarrow> \<exists>y. s = y @ r \<and> elements_text y vs"
    and IHm: "\<And>s kvs r. parse_members n s = Some (kvs, r) \<Longrightarrow> \<exists>m. s = m @ r \<and> members_text m kvs"
    and p: "parse_value (Suc n) s = Some (v, r)"
  shows "\<exists>x. s = x @ r \<and> value_text x v"
proof -
  obtain c cs where s: "s = c # cs" using p by (cases s) auto
  consider (obj) "c = ch CHR ''{''" | (arr) "c = ch CHR ''[''" | (str) "c = quote"
    | (other) "c \<noteq> ch CHR ''{''" "c \<noteq> ch CHR ''[''" "c \<noteq> quote" by blast
  then show ?thesis
  proof cases
    case obj
    obtain w where w: "ws w" "cs = w @ skip_ws cs" using skip_ws_split by blast
    obtain d ds where d: "skip_ws cs = d # ds" using p s obj by (cases "skip_ws cs") auto
    show ?thesis
    proof (cases "d = ch CHR ''}''")
      case True
      then have "v = JObject []" "r = ds" using p s obj d by auto
      moreover have "s = (ch CHR ''{'' # w @ [ch CHR ''}'']) @ ds"
        using s obj w(2) d True by (metis append_Cons append_Nil append_assoc)
      ultimately show ?thesis using value_text_elements_text_members_text.empty_object [OF w(1)] by blast
    next
      case False
      then obtain kvs where m: "parse_members n (d # ds) = Some (kvs, r)" and v: "v = JObject kvs"
        using p s obj d by auto
      from IHm [OF m] obtain m' where m': "d # ds = m' @ r" "members_text m' kvs" by blast
      have "s = (ch CHR ''{'' # w @ m') @ r"
        using s obj w(2) d m'(1) by (metis append_Cons append_assoc)
      then show ?thesis
        using v value_text_elements_text_members_text.object [OF w(1) m'(2)] by blast
    qed
  next
    case arr
    then have nb: "c \<noteq> ch CHR ''{''" by simp
    obtain w where w: "ws w" "cs = w @ skip_ws cs" using skip_ws_split by blast
    obtain d ds where d: "skip_ws cs = d # ds" using p s arr by (cases "skip_ws cs") auto
    show ?thesis
    proof (cases "d = ch CHR '']''")
      case True
      then have "v = JArray []" "r = ds" using p s arr d by auto
      moreover have "s = (ch CHR ''['' # w @ [ch CHR '']'']) @ ds"
        using s arr w(2) d True by (metis append_Cons append_Nil append_assoc)
      ultimately show ?thesis using value_text_elements_text_members_text.empty_array [OF w(1)] by blast
    next
      case False
      then obtain vs where m: "parse_elements n (d # ds) = Some (vs, r)" and v: "v = JArray vs"
        using p s arr d by auto
      from IHe [OF m] obtain y where y: "d # ds = y @ r" "elements_text y vs" by blast
      have "s = (ch CHR ''['' # w @ y) @ r"
        using s arr w(2) d y(1) by (metis append_Cons append_assoc)
      then show ?thesis
        using v value_text_elements_text_members_text.array [OF w(1) y(2)] by blast
    qed
  next
    case str
    then have q: "c \<noteq> ch CHR ''{''" "c \<noteq> ch CHR ''[''" by (auto simp: quote_def)
    from p s str q obtain u where u: "parse_string_body cs = Some (u, r)" and v: "v = JString u"
      by auto
    from parse_string_body_sound [OF u] obtain x where x: "cs = x @ r" "string_body x u" by blast
    show ?thesis using s str x v value_text_elements_text_members_text.string [OF x(2)] by auto
  next
    case other
    have e: "parse_value (Suc n) s =
       (if take 4 s = js ''true'' then Some (JBool True, drop 4 s)
        else if take 5 s = js ''false'' then Some (JBool False, drop 5 s)
        else if take 4 s = js ''null'' then Some (JNull, drop 4 s)
        else map_option (apfst JNumber) (parse_number s))"
      using s other by simp
    consider (t) "take 4 s = js ''true''" "v = JBool True" "r = drop 4 s"
      | (f) "take 5 s = js ''false''" "v = JBool False" "r = drop 5 s"
      | (n) "take 4 s = js ''null''" "v = JNull" "r = drop 4 s"
      | (num) lit where "parse_number s = Some (lit, r)" "v = JNumber lit"
      using p unfolding e by (auto split: if_splits)
    then show ?thesis
    proof cases
      case t
      then show ?thesis
        using value_text_elements_text_members_text.true append_take_drop_id [of 4 s] by metis
    next
      case f
      then show ?thesis
        using value_text_elements_text_members_text.false append_take_drop_id [of 5 s] by metis
    next
      case n
      then show ?thesis
        using value_text_elements_text_members_text.null append_take_drop_id [of 4 s] by metis
    next
      case num
      then show ?thesis
        using parse_number_sound [OF num(1)] value_text_elements_text_members_text.number by blast
    qed
  qed
qed

lemma parse_elements_Suc_sound:
  assumes IHv: "\<And>s v r. parse_value n s = Some (v, r) \<Longrightarrow> \<exists>x. s = x @ r \<and> value_text x v"
    and IHe: "\<And>s vs r. parse_elements n s = Some (vs, r) \<Longrightarrow> \<exists>y. s = y @ r \<and> elements_text y vs"
    and p: "parse_elements (Suc n) s = Some (vs, r)"
  shows "\<exists>y. s = y @ r \<and> elements_text y vs"
proof -
  obtain v r1 where v: "parse_value n s = Some (v, r1)"
    using p by (auto split: option.splits)
  from IHv [OF v] obtain x where x: "s = x @ r1" "value_text x v" by blast
  obtain w where w: "ws w" "r1 = w @ skip_ws r1" using skip_ws_split by blast
  obtain d ds where d: "skip_ws r1 = d # ds" using p v by (cases "skip_ws r1") auto
  show ?thesis
  proof (cases "d = ch CHR '',''")
    case True
    then obtain vs' where e: "parse_elements n (skip_ws ds) = Some (vs', r)" and vs: "vs = v # vs'"
      using p v d by auto
    from IHe [OF e] obtain y where y: "skip_ws ds = y @ r" "elements_text y vs'" by blast
    obtain w' where w': "ws w'" "ds = w' @ skip_ws ds" using skip_ws_split by blast
    have "s = (x @ w @ ch CHR '','' # w' @ y) @ r"
      using x(1) w(2) d True w'(2) y(1) by (metis append_Cons append_assoc)
    then show ?thesis
      using vs value_text_elements_text_members_text.more_elements [OF x(2) w(1) w'(1) y(2)] by blast
  next
    case False
    then have "d = ch CHR '']''" "vs = [v]" "r = ds" using p v d by (auto split: if_splits)
    moreover have "s = (x @ w @ [d]) @ ds"
      using x(1) w(2) d by (metis append_Cons append_Nil append_assoc)
    ultimately show ?thesis
      using value_text_elements_text_members_text.last_element [OF x(2) w(1)] by blast
  qed
qed

lemma parse_members_Suc_sound:
  assumes IHv: "\<And>s v r. parse_value n s = Some (v, r) \<Longrightarrow> \<exists>x. s = x @ r \<and> value_text x v"
    and IHm: "\<And>s kvs r. parse_members n s = Some (kvs, r) \<Longrightarrow> \<exists>m. s = m @ r \<and> members_text m kvs"
    and p: "parse_members (Suc n) s = Some (kvs, r)"
  shows "\<exists>m. s = m @ r \<and> members_text m kvs"
proof -
  obtain cs where s: "s = quote # cs" using p by (cases s) (auto split: if_splits)
  obtain k r1 where k: "parse_string_body cs = Some (k, r1)"
    using p s by (auto split: option.splits)
  from parse_string_body_sound [OF k] obtain kb where kb: "cs = kb @ r1" "string_body kb k" by blast
  obtain w1 where w1: "ws w1" "r1 = w1 @ skip_ws r1" using skip_ws_split by blast
  obtain ds where d: "skip_ws r1 = ch CHR '':'' # ds"
    using p s k by (cases "skip_ws r1") (auto split: if_splits)
  obtain w2 where w2: "ws w2" "ds = w2 @ skip_ws ds" using skip_ws_split by blast
  obtain v r2 where v: "parse_value n (skip_ws ds) = Some (v, r2)"
    using p s k d by (auto split: option.splits)
  from IHv [OF v] obtain x where x: "skip_ws ds = x @ r2" "value_text x v" by blast
  obtain w3 where w3: "ws w3" "r2 = w3 @ skip_ws r2" using skip_ws_split by blast
  obtain e es where e: "skip_ws r2 = e # es" using p s k d v by (cases "skip_ws r2") auto
  have s': "s = quote # kb @ w1 @ ch CHR '':'' # w2 @ x @ w3 @ e # es"
    using s kb(1) w1(2) d w2(2) x(1) w3(2) e by (metis append_Cons append_assoc)
  show ?thesis
  proof (cases "e = ch CHR '',''")
    case True
    then obtain kvs' where m: "parse_members n (skip_ws es) = Some (kvs', r)"
      and kvs: "kvs = (k, v) # kvs'"
      using p s k d v e by auto
    from IHm [OF m] obtain m' where m': "skip_ws es = m' @ r" "members_text m' kvs'" by blast
    obtain w4 where w4: "ws w4" "es = w4 @ skip_ws es" using skip_ws_split by blast
    have "s = (quote # kb @ w1 @ ch CHR '':'' # w2 @ x @ w3 @ ch CHR '','' # w4 @ m') @ r"
      using s' True w4(2) m'(1) by (metis append_Cons append_assoc)
    then show ?thesis
      using kvs value_text_elements_text_members_text.more_members
              [OF kb(2) w1(1) w2(1) x(2) w3(1) w4(1) m'(2)] by blast
  next
    case False
    then have "e = ch CHR ''}''" "kvs = [(k, v)]" "r = es"
      using p s k d v e by (auto split: if_splits)
    moreover have "s = (quote # kb @ w1 @ ch CHR '':'' # w2 @ x @ w3 @ [e]) @ es"
      using s' by simp
    ultimately show ?thesis
      using value_text_elements_text_members_text.last_member [OF kb(2) w1(1) w2(1) x(2) w3(1)]
      by blast
  qed
qed

lemma parse_sound_all:
  "(\<forall>s v r. parse_value n s = Some (v, r) \<longrightarrow> (\<exists>x. s = x @ r \<and> value_text x v))
   \<and> (\<forall>s vs r. parse_elements n s = Some (vs, r) \<longrightarrow> (\<exists>y. s = y @ r \<and> elements_text y vs))
   \<and> (\<forall>s kvs r. parse_members n s = Some (kvs, r) \<longrightarrow> (\<exists>m. s = m @ r \<and> members_text m kvs))"
proof (induction n)
  case 0
  show ?case by simp
next
  case (Suc n)
  show ?case
    using parse_value_Suc_sound [of n] parse_elements_Suc_sound [of n]
      parse_members_Suc_sound [of n] Suc by blast
qed

lemma parse_value_sound:
  "parse_value n s = Some (v, r) \<Longrightarrow> \<exists>x. s = x @ r \<and> value_text x v"
  using parse_sound_all by blast

subsection \<open>First and last characters\<close>

lemma string_body_last: "string_body x u \<Longrightarrow> x \<noteq> [] \<and> last x = quote"
  by (induction rule: string_body.induct) auto

lemma text_ends:
  shows "value_text x v \<Longrightarrow> x \<noteq> [] \<and> value_start (hd x) \<and> value_end (last x)"
    and "elements_text y vs \<Longrightarrow> y \<noteq> [] \<and> value_start (hd y) \<and> last y = ch CHR '']''"
    and "members_text m kvs \<Longrightarrow> m \<noteq> [] \<and> hd m = quote \<and> last m = ch CHR ''}''"
proof (induction rule: value_text_elements_text_members_text.inducts)
  case (string x u)
  then show ?case using string_body_last [of x u] by (simp add: value_start_def value_end_def)
next
  case (number x)
  then show ?case using number_text_shape(1,3,4) [of x] by (auto simp: value_start_def value_end_def)
qed (auto simp: value_start_def value_end_def js_def)

lemma value_start_not_ws: "value_start c \<Longrightarrow> \<not> is_json_ws c \<and> \<not> is_js_ws c"
  by (auto simp: value_start_def is_json_ws_def is_js_ws_def quote_def is_digit_def)

lemma value_end_not_ws: "value_end c \<Longrightarrow> \<not> is_json_ws c \<and> \<not> is_js_ws c"
  by (auto simp: value_end_def is_json_ws_def is_js_ws_def quote_def is_digit_def)

lemma value_start_not_closer:
  "value_start c \<Longrightarrow> c \<noteq> ch CHR '']'' \<and> c \<noteq> ch CHR ''}''"
  by (auto simp: value_start_def quote_def is_digit_def)

lemma skip_ws_text:
  "ws w \<Longrightarrow> x \<noteq> [] \<Longrightarrow> \<not> is_json_ws (hd x) \<Longrightarrow> skip_ws (w @ x @ r) = x @ r"
  by (cases x) (auto simp: skip_ws_append)

lemma skip_ws_char: "ws w \<Longrightarrow> \<not> is_json_ws c \<Longrightarrow> skip_ws (w @ c # r) = c # r"
  by (simp add: skip_ws_append)

lemma number_follow_ws: "ws w \<Longrightarrow> number_follow (c # r) \<Longrightarrow> number_follow (w @ c # r)"
  by (cases w) (auto simp: number_follow_def ws_def is_json_ws_def is_digit_def)

lemma number_follow_delims [simp]:
  "number_follow (44 # r)" "number_follow (93 # r)" "number_follow (125 # r)"
  by (auto simp: number_follow_def is_digit_def)

lemma not_ws_delims [simp]:
  "\<not> is_json_ws 44" "\<not> is_json_ws 93" "\<not> is_json_ws 125" "\<not> is_json_ws 58" "\<not> is_json_ws quote"
  by (auto simp: is_json_ws_def quote_def)

subsection \<open>The parser accepts every text of the grammar\<close>

lemma parse_string_body_complete:
  "string_body x u \<Longrightarrow> parse_string_body (x @ r) = Some (u, r)"
proof (induction rule: string_body.induct)
  case closing
  show ?case by simp
next
  case (plain c x u)
  then show ?case by simp
next
  case (escape e w x u)
  then show ?case by (simp add: quote_def backslash_def)
next
  case (unicode h x u)
  then show ?case by (simp add: quote_def backslash_def)
qed

lemma value_start_cases:
  assumes "value_start c"
  obtains "c = ch CHR ''{''" | "c = ch CHR ''[''" | "c = quote"
    | "c \<noteq> ch CHR ''{''" "c \<noteq> ch CHR ''[''" "c \<noteq> quote"
  by blast

lemma parse_literal_true: "parse_value (Suc n) (js ''true'' @ r) = Some (JBool True, r)"
  by (simp add: js_def quote_def)

lemma parse_literal_false: "parse_value (Suc n) (js ''false'' @ r) = Some (JBool False, r)"
  by (simp add: js_def quote_def)

lemma parse_literal_null: "parse_value (Suc n) (js ''null'' @ r) = Some (JNull, r)"
  by (simp add: js_def quote_def)

lemma parse_value_number:
  assumes "number_text x" "number_follow r"
  shows "parse_value (Suc n) (x @ r) = Some (JNumber x, r)"
proof -
  from number_text_shape(1,3) [OF assms(1)] obtain c cs where
    x: "x = c # cs" and c: "c = ch CHR ''-'' \<or> is_digit c"
    by (cases x) auto
  have "c \<noteq> ch CHR ''{''" "c \<noteq> ch CHR ''[''" "c \<noteq> quote"
    "c \<noteq> ch CHR ''t''" "c \<noteq> ch CHR ''f''" "c \<noteq> ch CHR ''n''"
    using c by (auto simp: is_digit_def quote_def)
  then have "parse_value (Suc n) (x @ r) = map_option (apfst JNumber) (parse_number (x @ r))"
    using x by (auto simp: js_def)
  then show ?thesis using number_text_shape(5) [OF assms] by simp
qed

lemma parse_complete_all:
  shows "value_text x v \<Longrightarrow>
           (\<forall>n r. length x \<le> n \<and> number_follow r \<longrightarrow> parse_value n (x @ r) = Some (v, r))"
    and "elements_text y vs \<Longrightarrow>
           (\<forall>n r. length y \<le> n \<longrightarrow> parse_elements n (y @ r) = Some (vs, r))"
    and "members_text m kvs \<Longrightarrow>
           (\<forall>n r. length m \<le> n \<longrightarrow> parse_members n (m @ r) = Some (kvs, r))"
proof (induction rule: value_text_elements_text_members_text.inducts)
  case (empty_object w)
  show ?case
  proof (intro allI impI)
    fix n r assume "length (ch CHR ''{'' # w @ [ch CHR ''}'']) \<le> n \<and> number_follow r"
    then obtain n' where n: "n = Suc n'" by (cases n) auto
    show "parse_value n ((ch CHR ''{'' # w @ [ch CHR ''}'']) @ r) = Some (JObject [], r)"
      using skip_ws_char [OF empty_object.hyps, of 125 r] by (simp add: n)
  qed
next
  case (object w m kvs)
  show ?case
  proof (intro allI impI)
    fix n r assume a: "length (ch CHR ''{'' # w @ m) \<le> n \<and> number_follow r"
    then obtain n' where n: "n = Suc n'" and l: "length m \<le> n'" by (cases n) auto
    from text_ends(3) [OF object.hyps(2)] obtain ms where m: "m = quote # ms" by (cases m) auto
    have s: "skip_ws (w @ m @ r) = quote # ms @ r"
      using skip_ws_char [OF object.hyps(1), of quote "ms @ r"] m by simp
    have "parse_members n' (m @ r) = Some (kvs, r)" using object.IH l by blast
    then show "parse_value n ((ch CHR ''{'' # w @ m) @ r) = Some (JObject kvs, r)"
      using s m by (simp add: n quote_def)
  qed
next
  case (empty_array w)
  show ?case
  proof (intro allI impI)
    fix n r assume "length (ch CHR ''['' # w @ [ch CHR '']'']) \<le> n \<and> number_follow r"
    then obtain n' where n: "n = Suc n'" by (cases n) auto
    show "parse_value n ((ch CHR ''['' # w @ [ch CHR '']'']) @ r) = Some (JArray [], r)"
      using skip_ws_char [OF empty_array.hyps, of 93 r] by (simp add: n)
  qed
next
  case (array w y vs)
  show ?case
  proof (intro allI impI)
    fix n r assume a: "length (ch CHR ''['' # w @ y) \<le> n \<and> number_follow r"
    then obtain n' where n: "n = Suc n'" and l: "length y \<le> n'" by (cases n) auto
    from text_ends(2) [OF array.hyps(2)] obtain d ds where y: "y = d # ds" and d: "value_start d"
      by (cases y) auto
    have s: "skip_ws (w @ y @ r) = d # ds @ r"
      using skip_ws_char [OF array.hyps(1), of d "ds @ r"] y value_start_not_ws [OF d] by simp
    have "parse_elements n' (y @ r) = Some (vs, r)" using array.IH l by blast
    then show "parse_value n ((ch CHR ''['' # w @ y) @ r) = Some (JArray vs, r)"
      using s y value_start_not_closer [OF d] by (simp add: n)
  qed
next
  case (string x u)
  show ?case
  proof (intro allI impI)
    fix n r assume "length (quote # x) \<le> n \<and> number_follow r"
    then obtain n' where n: "n = Suc n'" by (cases n) auto
    show "parse_value n ((quote # x) @ r) = Some (JString u, r)"
      using parse_string_body_complete [OF string.hyps, of r] by (simp add: n quote_def)
  qed
next
  case true
  show ?case
  proof (intro allI impI)
    fix n r assume "length (js ''true'') \<le> n \<and> number_follow r"
    then obtain n' where n: "n = Suc n'" by (cases n) (auto simp: js_def)
    show "parse_value n (js ''true'' @ r) = Some (JBool True, r)"
      unfolding n by (rule parse_literal_true)
  qed
next
  case false
  show ?case
  proof (intro allI impI)
    fix n r assume "length (js ''false'') \<le> n \<and> number_follow r"
    then obtain n' where n: "n = Suc n'" by (cases n) (auto simp: js_def)
    show "parse_value n (js ''false'' @ r) = Some (JBool False, r)"
      unfolding n by (rule parse_literal_false)
  qed
next
  case null
  show ?case
  proof (intro allI impI)
    fix n r assume "length (js ''null'') \<le> n \<and> number_follow r"
    then obtain n' where n: "n = Suc n'" by (cases n) (auto simp: js_def)
    show "parse_value n (js ''null'' @ r) = Some (JNull, r)"
      unfolding n by (rule parse_literal_null)
  qed
next
  case (number x)
  show ?case
  proof (intro allI impI)
    fix n r assume a: "length x \<le> n \<and> number_follow r"
    then obtain n' where n: "n = Suc n'" using number_text_shape(1) [OF number.hyps] by (cases n) auto
    show "parse_value n (x @ r) = Some (JNumber x, r)"
      using parse_value_number [OF number.hyps] a by (simp add: n)
  qed
next
  case (last_element x v w)
  show ?case
  proof (intro allI impI)
    fix n r assume a: "length (x @ w @ [ch CHR '']'']) \<le> n"
    then obtain n' where n: "n = Suc n'" and l: "length x \<le> n'" by (cases n) auto
    have "number_follow (w @ 93 # r)" using number_follow_ws [OF last_element.hyps(2)] by simp
    then have "parse_value n' (x @ w @ 93 # r) = Some (v, w @ 93 # r)"
      using last_element.IH l by blast
    then show "parse_elements n ((x @ w @ [ch CHR '']'']) @ r) = Some ([v], r)"
      using skip_ws_char [OF last_element.hyps(2), of 93 r] by (simp add: n)
  qed
next
  case (more_elements x v w w' y vs)
  show ?case
  proof (intro allI impI)
    fix n r assume a: "length (x @ w @ ch CHR '','' # w' @ y) \<le> n"
    then obtain n' where n: "n = Suc n'" and l: "length x \<le> n'" "length y \<le> n'"
      by (cases n) auto
    have "number_follow (w @ 44 # w' @ y @ r)" using number_follow_ws [OF more_elements.hyps(2)] by simp
    then have 1: "parse_value n' (x @ w @ 44 # w' @ y @ r) = Some (v, w @ 44 # w' @ y @ r)"
      using more_elements.IH(1) l by blast
    from text_ends(2) [OF more_elements.hyps(4)] have "y \<noteq> []" "\<not> is_json_ws (hd y)"
      using value_start_not_ws by auto
    then have 2: "skip_ws (w' @ y @ r) = y @ r" using skip_ws_text more_elements.hyps(3) by blast
    have 3: "parse_elements n' (y @ r) = Some (vs, r)" using more_elements.IH(2) l by blast
    show "parse_elements n ((x @ w @ ch CHR '','' # w' @ y) @ r) = Some (v # vs, r)"
      using 1 2 3 skip_ws_char [OF more_elements.hyps(2), of 44 "w' @ y @ r"] by (simp add: n)
  qed
next
  case (last_member k ku w1 w2 x v w3)
  show ?case
  proof (intro allI impI)
    fix n r assume a: "length (quote # k @ w1 @ ch CHR '':'' # w2 @ x @ w3 @ [ch CHR ''}'']) \<le> n"
    then obtain n' where n: "n = Suc n'" and l: "length x \<le> n'" by (cases n) auto
    have 0: "parse_string_body (k @ w1 @ 58 # w2 @ x @ w3 @ 125 # r)
        = Some (ku, w1 @ 58 # w2 @ x @ w3 @ 125 # r)"
      using parse_string_body_complete [OF last_member.hyps(1)] by simp
    have "number_follow (w3 @ 125 # r)" using number_follow_ws [OF last_member.hyps(5)] by simp
    then have 1: "parse_value n' (x @ w3 @ 125 # r) = Some (v, w3 @ 125 # r)"
      using last_member.IH l by blast
    from text_ends(1) [OF last_member.hyps(4)] have "x \<noteq> []" "\<not> is_json_ws (hd x)"
      using value_start_not_ws by auto
    then have 2: "skip_ws (w2 @ x @ w3 @ 125 # r) = x @ w3 @ 125 # r"
      using skip_ws_text last_member.hyps(3) by blast
    show "parse_members n ((quote # k @ w1 @ ch CHR '':'' # w2 @ x @ w3 @ [ch CHR ''}'']) @ r)
        = Some ([(ku, v)], r)"
      using 0 1 2 skip_ws_char [OF last_member.hyps(2), of 58 "w2 @ x @ w3 @ 125 # r"]
        skip_ws_char [OF last_member.hyps(5), of 125 r]
      by (simp add: n)
  qed
next
  case (more_members k ku w1 w2 x v w3 w4 m kvs)
  show ?case
  proof (intro allI impI)
    fix n r
    assume a: "length (quote # k @ w1 @ ch CHR '':'' # w2 @ x @ w3 @ ch CHR '','' # w4 @ m) \<le> n"
    then obtain n' where n: "n = Suc n'" and l: "length x \<le> n'" "length m \<le> n'"
      by (cases n) auto
    have 0: "parse_string_body (k @ w1 @ 58 # w2 @ x @ w3 @ 44 # w4 @ m @ r)
        = Some (ku, w1 @ 58 # w2 @ x @ w3 @ 44 # w4 @ m @ r)"
      using parse_string_body_complete [OF more_members.hyps(1)] by simp
    have "number_follow (w3 @ 44 # w4 @ m @ r)" using number_follow_ws [OF more_members.hyps(5)] by simp
    then have 1: "parse_value n' (x @ w3 @ 44 # w4 @ m @ r) = Some (v, w3 @ 44 # w4 @ m @ r)"
      using more_members.IH(1) l by blast
    from text_ends(1) [OF more_members.hyps(4)] have "x \<noteq> []" "\<not> is_json_ws (hd x)"
      using value_start_not_ws by auto
    then have 2: "skip_ws (w2 @ x @ w3 @ 44 # w4 @ m @ r) = x @ w3 @ 44 # w4 @ m @ r"
      using skip_ws_text more_members.hyps(3) by blast
    from text_ends(3) [OF more_members.hyps(7)] have "m \<noteq> []" "\<not> is_json_ws (hd m)"
      by auto
    then have 3: "skip_ws (w4 @ m @ r) = m @ r" using skip_ws_text more_members.hyps(6) by blast
    have 4: "parse_members n' (m @ r) = Some (kvs, r)" using more_members.IH(2) l by blast
    show "parse_members n ((quote # k @ w1 @ ch CHR '':'' # w2 @ x @ w3 @ ch CHR '','' # w4 @ m) @ r)
        = Some ((ku, v) # kvs, r)"
      using 0 1 2 3 4 skip_ws_char [OF more_members.hyps(2), of 58 "w2 @ x @ w3 @ 44 # w4 @ m @ r"]
        skip_ws_char [OF more_members.hyps(5), of 44 "w4 @ m @ r"]
      by (simp add: n)
  qed
qed

lemma parse_value_complete:
  "value_text x v \<Longrightarrow> length x \<le> n \<Longrightarrow> number_follow r \<Longrightarrow> parse_value n (x @ r) = Some (v, r)"
  using parse_complete_all(1) by blast

subsection \<open>Trimming\<close>

lemma ws_js_blank: "ws w \<Longrightarrow> js_blank w"
  by (auto simp: ws_def js_blank_def list_all_iff is_json_ws_def is_js_ws_def)

lemma dropWhile_blank: "js_blank w \<Longrightarrow> dropWhile is_js_ws (w @ s) = dropWhile is_js_ws s"
  by (induction w) (auto simp: js_blank_def)

lemma trimStart_blank:
  "js_blank w \<Longrightarrow> x \<noteq> [] \<Longrightarrow> \<not> is_js_ws (hd x) \<Longrightarrow> trimStart (w @ x) = x"
  by (cases x) (auto simp: trimStart_def dropWhile_blank)

lemma trimEnd_blank:
  assumes "js_blank w" "x \<noteq> []" "\<not> is_js_ws (last x)"
  shows "trimEnd (x @ w) = x"
proof -
  have "js_blank (rev w)" using assms(1) by (simp add: js_blank_def)
  then have "dropWhile is_js_ws (rev (x @ w)) = dropWhile is_js_ws (rev x)"
    by (simp add: dropWhile_blank)
  also have "\<dots> = rev x"
    using assms(2,3) by (cases "rev x") (auto simp: last_rev hd_rev)
  finally show ?thesis by (simp add: trimEnd_def)
qed

lemma trim_blank:
  assumes "js_blank a" "js_blank r" "x \<noteq> []" "\<not> is_js_ws (hd x)" "\<not> is_js_ws (last x)"
  shows "trim (a @ x @ r) = x"
proof -
  have "trimStart (a @ x @ r) = x @ r"
    using trimStart_blank [OF assms(1), of "x @ r"] assms(3,4) by simp
  then show ?thesis using trimEnd_blank [OF assms(2,3,5)] by (simp add: trim_def)
qed

subsection \<open>Valid JSON texts\<close>

lemma json_parse_shape:
  assumes "json_parse t = Some v"
  shows "\<exists>a x r. t = a @ x @ r \<and> ws a \<and> ws r \<and> value_text x v"
proof -
  obtain a where a: "ws a" "t = a @ skip_ws t" using skip_ws_split by blast
  from assms obtain r where p: "parse_value (Suc (length t)) (skip_ws t) = Some (v, r)"
    and r: "skip_ws r = []"
    by (auto simp: json_parse_def split: option.splits if_splits)
  from parse_value_sound [OF p] obtain x where x: "skip_ws t = x @ r" "value_text x v" by blast
  obtain w where w: "ws w" "r = w @ skip_ws r" using skip_ws_split by blast
  then have "ws r" using r by simp
  then show ?thesis using a x by metis
qed

lemma json_parse_value_text:
  assumes "value_text x v"
  shows "json_parse x = Some v"
proof -
  from text_ends(1) [OF assms] have "x \<noteq> []" "\<not> is_json_ws (hd x)"
    using value_start_not_ws by auto
  then have s: "skip_ws x = x" by (cases x) auto
  have "parse_value (Suc (length x)) (x @ []) = Some (v, [])"
    by (intro parse_value_complete [OF assms]) (auto simp: number_follow_def)
  then have p: "parse_value (Suc (length x)) x = Some (v, [])" by (simp del: parse_value.simps)
  have e: "skip_ws [] = []" by (simp add: skip_ws_def)
  show ?thesis unfolding json_parse_def s p by (simp add: e)
qed

lemma fenceMatch_value_text:
  assumes "value_text x v"
  shows "fenceMatch x = None"
proof -
  from text_ends(1) [OF assms] obtain c cs where "x = c # cs" "value_start c"
    by (cases x) auto
  then show ?thesis
    by (auto simp: fenceMatch_def startsWith_def backticks_def value_start_def quote_def is_digit_def)
qed

lemma decode_value_text:
  assumes "value_text x v"
  shows "parseJsonFromText x b = v"
proof -
  from text_ends(1) [OF assms] have e: "x \<noteq> []" "\<not> is_js_ws (hd x)" "\<not> is_js_ws (last x)"
    using value_start_not_ws value_end_not_ws by auto
  have t: "trim x = x" using trim_blank [of "[]" "[]" x] e by (simp add: js_blank_def)
  show ?thesis
    unfolding parseJsonFromText_def t
    by (simp add: fenceMatch_value_text [OF assms] json_parse_value_text [OF assms])
qed








section \<open>What the salvage loop sees of a well-formed text\<close>

lemma quote_backslash [simp]:
  "quote \<noteq> backslash" "backslash \<noteq> quote" "quote \<noteq> 123" "quote \<noteq> 125"
  "backslash \<noteq> 123" "backslash \<noteq> 125" "quote \<noteq> 117" "backslash \<noteq> 117"
  by (auto simp: quote_def backslash_def)

lemma stays_above_append:
  "stays_above lo st (x @ y) = (stays_above lo st x \<and> stays_above lo (foldl lex_step st x) y)"
  by (induction x arbitrary: st) auto

lemma stays_above_mono: "stays_above lo st x \<Longrightarrow> lo' \<le> lo \<Longrightarrow> stays_above lo' st x"
  by (induction x arbitrary: st) auto

lemma balanced_Nil [simp]: "balanced []"
  by (auto simp: balanced_def)

lemma balanced_append:
  assumes "balanced x" "balanced y"
  shows "balanced (x @ y)"
  unfolding balanced_def
proof (intro allI impI)
  fix count :: nat and d :: int
  assume e: "even count"
  from assms(1) e obtain c1 where 1: "even c1" "foldl lex_step (count, False, d) x = (c1, False, d)"
    "stays_above d (count, False, d) x"
    unfolding balanced_def by blast
  from assms(2) 1(1) obtain c2 where 2: "even c2" "foldl lex_step (c1, False, d) y = (c2, False, d)"
    "stays_above d (c1, False, d) y"
    unfolding balanced_def by blast
  show "(\<exists>count'. even count' \<and> foldl lex_step (count, False, d) (x @ y) = (count', False, d))
        \<and> stays_above d (count, False, d) (x @ y)"
    using 1 2 by (simp add: stays_above_append)
qed

lemma balanced_plain:
  "c \<noteq> quote \<Longrightarrow> c \<noteq> backslash \<Longrightarrow> c \<noteq> ch CHR ''{'' \<Longrightarrow> c \<noteq> ch CHR ''}'' \<Longrightarrow> balanced [c]"
  by (auto simp: balanced_def lex_step_def)

lemma balanced_Cons_plain:
  "c \<noteq> quote \<Longrightarrow> c \<noteq> backslash \<Longrightarrow> c \<noteq> ch CHR ''{'' \<Longrightarrow> c \<noteq> ch CHR ''}'' \<Longrightarrow> balanced x
   \<Longrightarrow> balanced (c # x)"
  using balanced_append [OF balanced_plain, of c x] by simp

lemma balanced_all_plain:
  "\<forall>c \<in> set x. c \<noteq> quote \<and> c \<noteq> backslash \<and> c \<noteq> ch CHR ''{'' \<and> c \<noteq> ch CHR ''}'' \<Longrightarrow> balanced x"
  by (induction x) (auto intro: balanced_Cons_plain)

lemma balanced_ws: "ws w \<Longrightarrow> balanced w"
  by (intro balanced_all_plain)
     (auto simp: ws_def list_all_iff is_json_ws_def quote_def backslash_def)

lemma balanced_number: "number_text x \<Longrightarrow> balanced x"
  using number_text_shape(2) [of x]
  by (intro balanced_all_plain)
     (auto simp: list_all_iff number_char_def is_digit_def quote_def backslash_def)

lemma balanced_literals: "balanced (js ''true'')" "balanced (js ''false'')" "balanced (js ''null'')"
  by (auto intro!: balanced_all_plain simp: js_def quote_def backslash_def)

lemma lex_step_in_string:
  "c \<noteq> quote \<Longrightarrow> lex_step (count, True, d) c = (if c = backslash then Suc count else 0, True, d)"
  "odd count \<Longrightarrow> lex_step (count, True, d) c = (if c = backslash then Suc count else 0, True, d)"
  "even count \<Longrightarrow> lex_step (count, True, d) quote = (0, False, d)"
  by (auto simp: lex_step_def)

lemma string_closingI:
  assumes "\<And>count d. even count \<Longrightarrow>
    \<exists>count'. even count' \<and> foldl lex_step (count, True, d) k = (count', False, d)"
    and "\<And>count d. even count \<Longrightarrow> stays_above d (count, True, d) k"
  shows "string_closing k"
  using assms unfolding string_closing_def by blast

lemma string_closingD:
  assumes "string_closing k" "even count"
  shows "\<exists>count'. even count' \<and> foldl lex_step (count, True, d) k = (count', False, d)"
    and "stays_above d (count, True, d) k"
  using assms unfolding string_closing_def by blast+

lemma string_closing_body: "string_body k u \<Longrightarrow> string_closing k"
proof (induction rule: string_body.induct)
  case closing
  show ?case by (intro string_closingI) (auto simp: lex_step_in_string)
next
  case (plain c x u)
  show ?case
  proof (intro string_closingI)
    fix count :: nat and d :: int
    assume "even count"
    have s: "lex_step (count, True, d) c = (0, True, d)"
      using plain.hyps(1,2) by (simp add: lex_step_in_string)
    show "\<exists>count'. even count' \<and> foldl lex_step (count, True, d) (c # x) = (count', False, d)"
      using string_closingD(1) [OF plain.IH, of 0 d] by (simp add: s)
    show "stays_above d (count, True, d) (c # x)"
      using string_closingD(2) [OF plain.IH, of 0 d] by (simp add: s)
  qed
next
  case (escape e w x u)
  show ?case
  proof (intro string_closingI)
    fix count :: nat and d :: int
    assume ev: "even count"
    define c2 where "c2 = (if e = backslash then Suc (Suc count) else 0)"
    have s1: "lex_step (count, True, d) backslash = (Suc count, True, d)"
      by (simp add: lex_step_in_string)
    have s2: "lex_step (Suc count, True, d) e = (c2, True, d)"
      using ev by (simp add: lex_step_in_string(2) c2_def)
    have e2: "even c2" using ev by (simp add: c2_def)
    show "\<exists>count'. even count' \<and>
        foldl lex_step (count, True, d) (backslash # e # x) = (count', False, d)"
      using string_closingD(1) [OF escape.IH e2, of d] by (simp add: s1 s2)
    show "stays_above d (count, True, d) (backslash # e # x)"
      using string_closingD(2) [OF escape.IH e2, of d] by (simp add: s1 s2)
  qed
next
  case (unicode h x u)
  have h: "\<forall>c \<in> set h. c \<noteq> quote \<and> c \<noteq> backslash"
    using unicode.hyps(2) by (auto simp: list_all_iff is_hex_def is_digit_def quote_def backslash_def)
  have inside: "foldl lex_step (0, True, d) h = (0, True, d) \<and> stays_above d (0, True, d) h" for d
    using h by (induction h) (auto simp: lex_step_in_string)
  show ?case
  proof (intro string_closingI)
    fix count :: nat and d :: int
    assume ev: "even count"
    have s1: "lex_step (count, True, d) backslash = (Suc count, True, d)"
      by (simp add: lex_step_in_string)
    have s2: "lex_step (Suc count, True, d) 117 = (0, True, d)"
      using ev by (simp add: lex_step_in_string(2))
    show "\<exists>count'. even count' \<and>
        foldl lex_step (count, True, d) (backslash # ch CHR ''u'' # h @ x) = (count', False, d)"
      using string_closingD(1) [OF unicode.IH, of 0 d] inside [of d] by (simp add: s1 s2)
    show "stays_above d (count, True, d) (backslash # ch CHR ''u'' # h @ x)"
      using string_closingD(2) [OF unicode.IH, of 0 d] inside [of d]
      by (simp add: s1 s2 stays_above_append)
  qed
qed

lemma balanced_string:
  assumes "string_body k u"
  shows "balanced (quote # k)"
  unfolding balanced_def
proof (intro allI impI)
  fix count :: nat and d :: int
  assume ev: "even count"
  have s: "lex_step (count, False, d) quote = (0, True, d)"
    using ev by (simp add: lex_step_def)
  note c = string_closing_body [OF assms]
  show "(\<exists>count'. even count' \<and> foldl lex_step (count, False, d) (quote # k) = (count', False, d))
        \<and> stays_above d (count, False, d) (quote # k)"
    using string_closingD(1) [OF c, of 0 d] string_closingD(2) [OF c, of 0 d] by (simp add: s)
qed

lemma closing_snoc: "balanced p \<Longrightarrow> closing (p @ [ch CHR ''}''])"
  by (simp add: closing_def)

lemma balanced_closing: "balanced p \<Longrightarrow> closing m \<Longrightarrow> closing (p @ m)"
  by (auto simp: closing_def butlast_append intro: balanced_append)

lemma balanced_object: "closing m \<Longrightarrow> balanced (ch CHR ''{'' # m)"
proof -
  assume c: "closing m"
  then obtain i where m: "m = i @ [ch CHR ''}'']" and i: "balanced i"
    by (metis closing_def append_butlast_last_id)
  show ?thesis
    unfolding balanced_def
  proof (intro allI impI)
    fix count :: nat and d :: int
    assume "even count"
    have 1: "foldl lex_step (count, False, d) [ch CHR ''{''] = (0, False, d + 1)"
      by (simp add: lex_step_def quote_def backslash_def)
    from i obtain count' where 2: "even count'"
      "foldl lex_step (0, False, d + 1) i = (count', False, d + 1)"
      "stays_above (d + 1) (0, False, d + 1) i"
      unfolding balanced_def by (metis even_zero)
    have 3: "foldl lex_step (count', False, d + 1) [ch CHR ''}''] = (0, False, d)"
      by (simp add: lex_step_def quote_def backslash_def)
    have e: "ch CHR ''{'' # m = [ch CHR ''{''] @ i @ [ch CHR ''}'']" using m by simp
    have "stays_above d (0, False, d + 1) i" using stays_above_mono [OF 2(3), of d] by simp
    then show "(\<exists>count'. even count' \<and> foldl lex_step (count, False, d) (ch CHR ''{'' # m) = (count', False, d))
          \<and> stays_above d (count, False, d) (ch CHR ''{'' # m)"
      unfolding e foldl_append stays_above_append 1 2(2) 3
      by (simp add: lex_step_def quote_def backslash_def)
  qed
qed

lemma text_balanced:
  shows "value_text x v \<Longrightarrow> balanced x"
    and "elements_text y vs \<Longrightarrow> balanced y"
    and "members_text m kvs \<Longrightarrow> closing m"
proof (induction rule: value_text_elements_text_members_text.inducts)
  case (empty_object w)
  have "closing (w @ [ch CHR ''}''])"
    using balanced_ws [OF empty_object.hyps] by (rule closing_snoc)
  then show ?case using balanced_object by simp
next
  case (object w m kvs)
  then show ?case
    using balanced_object [OF balanced_closing [OF balanced_ws]] by simp
next
  case (empty_array w)
  have "balanced ([ch CHR ''[''] @ w @ [ch CHR '']''])"
    using balanced_ws [OF empty_array.hyps]
    by (intro balanced_append balanced_plain) (auto simp: quote_def backslash_def)
  then show ?case by simp
next
  case (array w y vs)
  have "balanced ([ch CHR ''[''] @ w @ y)"
    using balanced_ws [OF array.hyps(1)] array.IH
    by (intro balanced_append balanced_plain) (auto simp: quote_def backslash_def)
  then show ?case by simp
next
  case (string x u)
  then show ?case using balanced_string by simp
next
  case true
  show ?case by (rule balanced_literals)
next
  case false
  show ?case by (rule balanced_literals)
next
  case null
  show ?case by (rule balanced_literals)
next
  case (number x)
  then show ?case using balanced_number by simp
next
  case (last_element x v w)
  show ?case
    using last_element.IH balanced_ws [OF last_element.hyps(2)]
    by (intro balanced_append balanced_plain) (auto simp: quote_def backslash_def)
next
  case (more_elements x v w w' y vs)
  have "balanced (x @ w @ [ch CHR '',''] @ w' @ y)"
    using more_elements.IH balanced_ws [OF more_elements.hyps(2)] balanced_ws [OF more_elements.hyps(3)]
    by (intro balanced_append balanced_plain) (auto simp: quote_def backslash_def)
  then show ?case by simp
next
  case (last_member k ku w1 w2 x v w3)
  have "balanced ((quote # k) @ w1 @ [ch CHR '':''] @ w2 @ x @ w3)"
    using last_member.IH balanced_string [OF last_member.hyps(1)]
      balanced_ws [OF last_member.hyps(2)] balanced_ws [OF last_member.hyps(3)]
      balanced_ws [OF last_member.hyps(5)]
    by (intro balanced_append balanced_plain) (auto simp: quote_def backslash_def)
  then have "closing (((quote # k) @ w1 @ [ch CHR '':''] @ w2 @ x @ w3) @ [ch CHR ''}''])"
    by (rule closing_snoc)
  then show ?case by simp
next
  case (more_members k ku w1 w2 x v w3 w4 m kvs)
  have "balanced ((quote # k) @ w1 @ [ch CHR '':''] @ w2 @ x @ w3 @ [ch CHR '',''] @ w4)"
    using more_members.IH(1) balanced_string [OF more_members.hyps(1)]
      balanced_ws [OF more_members.hyps(2)] balanced_ws [OF more_members.hyps(3)]
      balanced_ws [OF more_members.hyps(5)] balanced_ws [OF more_members.hyps(6)]
    by (intro balanced_append balanced_plain) (auto simp: quote_def backslash_def)
  then have "closing (((quote # k) @ w1 @ [ch CHR '':''] @ w2 @ x @ w3 @ [ch CHR '',''] @ w4) @ m)"
    using more_members.IH(2) by (intro balanced_closing)
  then show ?case by simp
qed

lemma object_text_closing:
  assumes "value_text x v" "hd x = ch CHR ''{''"
  shows "\<exists>tail. x = ch CHR ''{'' # tail \<and> closing tail"
  using assms
proof (cases rule: value_text.cases)
  case (empty_object w)
  then show ?thesis using closing_snoc [OF balanced_ws, of w] by auto
next
  case (object w m kvs)
  then show ?thesis using balanced_closing [OF balanced_ws text_balanced(3)] by auto
next
  case (number)
  then show ?thesis using number_text_shape(3) [of x] assms(2) by (auto simp: is_digit_def)
qed (auto simp: js_def quote_def)

section \<open>The salvage loop as a pass over the characters\<close>

lemma scan_chars_Nil [simp]: "scan_chars cs [] = cs"
  by (simp add: scan_chars_def)

lemma scan_chars_Cons [simp]:
  "scan_chars (count, st) (c # x)
     = scan_chars (if c = backslash then Suc count else 0, scan_step count c st) x"
  by (simp add: scan_chars_def)

lemma scan_chars_append: "scan_chars cs (x @ y) = scan_chars (scan_chars cs x) y"
  by (simp add: scan_chars_def)

lemma backslashCount_0 [simp]: "backslashCount s 0 = 0"
  by (simp add: backslashCount_def)

lemma backslashCount_Suc:
  "backslashCount (pre @ c # s) (Suc (length pre))
     = (if c = backslash then Suc (backslashCount (pre @ c # s) (length pre)) else 0)"
  by (simp add: backslashCount_def)

lemma scan_index:
  "foldl (scan_char (pre @ s)) st [length pre..<length pre + length s]
     = snd (scan_chars (backslashCount (pre @ s) (length pre), st) s)"
proof (induction s arbitrary: pre st)
  case Nil
  show ?case by simp
next
  case (Cons c s)
  have u: "[length pre..<length pre + length (c # s)]
      = length pre # [length (pre @ [c])..<length (pre @ [c]) + length s]"
    by (simp add: upt_rec)
  have k: "scan_char (pre @ c # s) st (length pre)
      = scan_step (backslashCount (pre @ c # s) (length pre)) c st"
    by (simp add: scan_char_def)
  have b: "backslashCount ((pre @ [c]) @ s) (length (pre @ [c]))
      = (if c = backslash then Suc (backslashCount (pre @ c # s) (length pre)) else 0)"
    using backslashCount_Suc [of pre c s] by simp
  show ?case
    unfolding u using Cons.IH [of "pre @ [c]"] k b by simp
qed

lemma iterative_salvage_scan:
  "iterative_salvage s = extractedObjects (snd (scan_chars (0, scan_init) s))"
  using scan_index [of "[]" s scan_init] by (simp add: iterative_salvage_def)

lemma scan_step_inString [simp]: "inString (scan_step count c st) = next_inString count c st"
  by (simp add: scan_step_def next_inString_def Let_def split: option.splits)

lemma scan_step_depth [simp]: "depth (scan_step count c st) = next_depth count c st"
  by (simp add: scan_step_def next_depth_def next_inString_def Let_def split: option.splits)

lemma scan_step_lex:
  "lex_step (count, inString st, depth st) c
     = (if c = backslash then Suc count else 0, next_inString count c st, next_depth count c st)"
  by (simp add: lex_step_def next_depth_def next_inString_def Let_def)

lemma scan_step_plain:
  "next_depth count c st \<noteq> 0 \<Longrightarrow> depth st \<noteq> 0 \<Longrightarrow>
   scan_step count c st
     = st\<lparr>buffer := buffer st @ [c], depth := next_depth count c st,
          inString := next_inString count c st\<rparr>"
  by (simp add: scan_step_def next_depth_def next_inString_def Let_def)

text \<open>Above depth 0 the loop only appends to its buffer.\<close>

lemma scan_interior:
  assumes "stays_above 1 (count, inString st, depth st) y" "1 \<le> depth st"
  shows "\<exists>count' ins' dep'.
           foldl lex_step (count, inString st, depth st) y = (count', ins', dep')
           \<and> scan_chars (count, st) y
               = (count', st\<lparr>buffer := buffer st @ y, depth := dep', inString := ins'\<rparr>)"
  using assms
proof (induction y arbitrary: count st)
  case Nil
  show ?case by simp
next
  case (Cons c y)
  let ?st = "scan_step count c st"
  let ?count = "if c = backslash then Suc count else 0"
  have l: "lex_step (count, inString st, depth st) c
      = (?count, next_inString count c st, next_depth count c st)"
    by (rule scan_step_lex)
  from Cons.prems(1) have d: "1 \<le> next_depth count c st"
    and r: "stays_above 1 (?count, next_inString count c st, next_depth count c st) y"
    by (simp_all add: l)
  have b: "?st = st\<lparr>buffer := buffer st @ [c], depth := next_depth count c st,
                    inString := next_inString count c st\<rparr>"
    using d Cons.prems(2) by (intro scan_step_plain) auto
  have r': "stays_above 1 (?count, inString ?st, depth ?st) y" and d': "1 \<le> depth ?st"
    using r d by simp_all
  from Cons.IH [OF r' d'] obtain count' ins' dep' where
    f: "foldl lex_step (?count, inString ?st, depth ?st) y = (count', ins', dep')"
    and s: "scan_chars (?count, ?st) y
       = (count', ?st\<lparr>buffer := buffer ?st @ y, depth := dep', inString := ins'\<rparr>)"
    by blast
  have "?st\<lparr>buffer := buffer ?st @ y, depth := dep', inString := ins'\<rparr>
      = st\<lparr>buffer := buffer st @ c # y, depth := dep', inString := ins'\<rparr>"
    by (subst (1 2) b) simp
  then show ?case using f s l by simp
qed

text \<open>A well-formed object at depth 0 is collected whole.\<close>

lemma trim_object:
  "x \<noteq> [] \<Longrightarrow> hd x = ch CHR ''{'' \<Longrightarrow> last x = ch CHR ''}'' \<Longrightarrow> trim x = x"
  using trim_blank [of "[]" "[]" x] by (simp add: js_blank_def is_js_ws_def)

lemma scan_object:
  assumes c: "closing tail" and p: "json_parse (ch CHR ''{'' # tail) = Some v"
    and e: "even count" and d: "depth st = 0" and i: "\<not> inString st"
  shows "scan_chars (count, st) (ch CHR ''{'' # tail)
     = (0, st\<lparr>buffer := [], extractedObjects := extractedObjects st @ [v]\<rparr>)"
proof -
  from c obtain body where tail: "tail = body @ [ch CHR ''}'']" and b: "balanced body"
    by (metis closing_def append_butlast_last_id)
  define st1 where "st1 = st\<lparr>buffer := [ch CHR ''{''], depth := 1, inString := False\<rparr>"
  have 1: "scan_step count (ch CHR ''{'') st = st1"
    using d i by (simp add: scan_step_def st1_def Let_def quote_def)
  from b obtain c2 where 2: "foldl lex_step (0, False, 1) body = (c2, False, 1)"
    "stays_above 1 (0, False, 1) body"
    unfolding balanced_def by (metis even_zero)
  have "stays_above 1 (0, inString st1, depth st1) body" "1 \<le> depth st1"
    using 2(2) by (simp_all add: st1_def)
  from scan_interior [OF this] obtain st2 where
    3: "scan_chars (0, st1) body = (c2, st2)"
    and st2: "st2 = st1\<lparr>buffer := buffer st1 @ body, depth := 1, inString := False\<rparr>"
    using 2(1) by (auto simp: st1_def)
  have t: "trim (123 # body @ [125]) = 123 # body @ [125]"
    by (intro trim_object) auto
  have 4: "scan_step c2 (ch CHR ''}'') st2
      = st\<lparr>buffer := [], extractedObjects := extractedObjects st @ [v]\<rparr>"
    using p d i
    by (simp add: scan_step_def st2 st1_def Let_def quote_def t tail startsWith_def js_def)
  have "scan_chars (count, st) (ch CHR ''{'' # tail)
      = scan_chars (scan_chars (0, st1) body) [ch CHR ''}'']"
    unfolding tail using 1 by (simp add: scan_chars_append backslash_def)
  also have "\<dots> = (0, st\<lparr>buffer := [], extractedObjects := extractedObjects st @ [v]\<rparr>)"
    unfolding 3 using 4 by (simp add: backslash_def)
  finally show ?thesis .
qed

lemma scan_comma:
  "depth st = 0 \<Longrightarrow> \<not> inString st \<Longrightarrow> scan_chars (count, st) (js '','') = (0, st\<lparr>buffer := []\<rparr>)"
  by (simp add: js_def scan_step_def Let_def quote_def backslash_def)

lemma scan_no_closing_brace:
  "ch CHR ''}'' \<notin> set T \<Longrightarrow>
   extractedObjects (snd (scan_chars (count, st) T)) = extractedObjects st"
proof (induction T arbitrary: count st)
  case Nil
  show ?case by simp
next
  case (Cons c T)
  have "extractedObjects (scan_step count c st) = extractedObjects st"
    using Cons.prems by (simp add: scan_step_def Let_def)
  then show ?case using Cons by simp
qed

text \<open>
  The fuel of \<open>json_parse\<close> is enough: every text of the grammar, with whitespace around it,
  is parsed, and nothing else is.
\<close>

lemma json_parse_complete:
  assumes "ws a" "ws r" "value_text x v"
  shows "json_parse (a @ x @ r) = Some v"
proof -
  from text_ends(1) [OF assms(3)] have "x \<noteq> []" "\<not> is_json_ws (hd x)"
    using value_start_not_ws by auto
  then have s: "skip_ws (a @ x @ r) = x @ r" using skip_ws_text [OF assms(1)] by blast
  have f: "number_follow r"
    using assms(2) by (cases r) (auto simp: number_follow_def ws_def is_json_ws_def is_digit_def)
  have p: "parse_value (Suc (length (a @ x @ r))) (x @ r) = Some (v, r)"
    by (intro parse_value_complete [OF assms(3) _ f]) simp
  obtain w where "ws w" "r = w @ skip_ws r" using skip_ws_split by blast
  have e: "skip_ws r = []"
    using assms(2) skip_ws_append [of r "[]"] by (simp add: skip_ws_def)
  show ?thesis unfolding json_parse_def s p by (simp add: e)
qed

lemma json_parse_iff:
  "json_parse t = Some v \<longleftrightarrow> (\<exists>a x r. t = a @ x @ r \<and> ws a \<and> ws r \<and> value_text x v)"
  using json_parse_shape json_parse_complete by blast

lemma object_text_shape:
  assumes "object_text s v"
  shows "\<exists>a tail r. s = a @ (ch CHR ''{'' # tail) @ r \<and> ws a \<and> ws r \<and> closing tail
           \<and> json_parse (ch CHR ''{'' # tail) = Some v \<and> value_text (ch CHR ''{'' # tail) v"
proof -
  from assms have p: "json_parse s = Some v" and o: "is_object v"
    by (auto simp: object_text_def)
  from json_parse_shape [OF p] obtain a x r where
    s: "s = a @ x @ r" and a: "ws a" and r: "ws r" and x: "value_text x v" by blast
  from o obtain kvs where v: "v = JObject kvs" by (cases v) auto
  have h: "hd x = ch CHR ''{''"
    using x unfolding v
  proof (cases rule: value_text.cases)
    case (empty_object w)
    then show ?thesis by simp
  next
    case (object w m)
    then show ?thesis by simp
  qed
  from object_text_closing [OF x h] obtain tail where t: "x = ch CHR ''{'' # tail" "closing tail"
    by blast
  have "json_parse x = Some v" using json_parse_value_text [OF x] .
  then show ?thesis using s a r t x by blast
qed

lemma scan_blank_step:
  "is_js_ws c \<Longrightarrow> scan_step count c st = st\<lparr>buffer := buffer st @ [c]\<rparr>"
  by (auto simp: scan_step_def Let_def is_js_ws_def quote_def)

lemma scan_blank:
  "js_blank w \<Longrightarrow> even count \<Longrightarrow>
   \<exists>count' st'. even count' \<and> scan_chars (count, st) w = (count', st')
      \<and> depth st' = depth st \<and> inString st' = inString st
      \<and> extractedObjects st' = extractedObjects st"
proof (induction w arbitrary: count st)
  case Nil
  then show ?case by simp
next
  case (Cons c w)
  then have c: "is_js_ws c" and w: "js_blank w" by (auto simp: js_blank_def)
  have nb: "c \<noteq> backslash" using c by (auto simp: is_js_ws_def backslash_def)
  from Cons.IH [OF w, of 0 "st\<lparr>buffer := buffer st @ [c]\<rparr>"]
  show ?case using scan_blank_step [OF c] nb by simp
qed

lemma scan_object_text:
  assumes "object_text s v" "even count" "depth st = 0" "\<not> inString st"
  shows "\<exists>count' st'. even count' \<and> scan_chars (count, st) s = (count', st')
      \<and> depth st' = 0 \<and> \<not> inString st'
      \<and> extractedObjects st' = extractedObjects st @ [v]"
proof -
  from object_text_shape [OF assms(1)] obtain a tail r where
    s: "s = a @ (ch CHR ''{'' # tail) @ r" and a: "ws a" and r: "ws r" and t: "closing tail"
    and p: "json_parse (ch CHR ''{'' # tail) = Some v" by blast
  from scan_blank [OF ws_js_blank [OF a] assms(2), of st] assms(3,4) obtain c1 st1 where
    1: "even c1" "scan_chars (count, st) a = (c1, st1)" "depth st1 = 0" "\<not> inString st1"
      "extractedObjects st1 = extractedObjects st" by auto
  let ?st2 = "st1\<lparr>buffer := [], extractedObjects := extractedObjects st1 @ [v]\<rparr>"
  have 2: "scan_chars (c1, st1) (ch CHR ''{'' # tail) = (0, ?st2)"
    by (rule scan_object [OF t p 1(1,3,4)])
  from scan_blank [OF ws_js_blank [OF r], of 0 ?st2] obtain c3 st3 where
    3: "even c3" "scan_chars (0, ?st2) r = (c3, st3)" "depth st3 = depth ?st2"
      "inString st3 = inString ?st2" "extractedObjects st3 = extractedObjects ?st2" by auto
  have "scan_chars (count, st) s = (c3, st3)"
    unfolding s scan_chars_append 1(2) 2 3(2) ..
  then show ?thesis using 3 1 by simp
qed

lemma scan_objects:
  assumes "list_all2 object_text os vs" "os \<noteq> []" "even count" "depth st = 0" "\<not> inString st"
  shows "\<exists>count' st'. even count' \<and> scan_chars (count, st) (join (js '','') os) = (count', st')
      \<and> depth st' = 0 \<and> \<not> inString st'
      \<and> extractedObjects st' = extractedObjects st @ vs"
  using assms
proof (induction os vs arbitrary: count st rule: list_all2_induct)
  case Nil
  then show ?case by simp
next
  case (Cons s os v vs)
  from scan_object_text [OF Cons.hyps(1) Cons.prems(2-4)] obtain c1 st1 where
    1: "even c1" "scan_chars (count, st) s = (c1, st1)" "depth st1 = 0" "\<not> inString st1"
      "extractedObjects st1 = extractedObjects st @ [v]" by blast
  show ?case
  proof (cases os)
    case Nil
    then have "vs = []" using Cons.hyps(2) by simp
    then show ?thesis using 1 Nil by simp
  next
    case os: (Cons s' os')
    let ?st2 = "st1\<lparr>buffer := []\<rparr>"
    have 2: "scan_chars (c1, st1) (js '','') = (0, ?st2)"
      using scan_comma [of st1 c1] 1(3,4) by simp
    from Cons.IH [of 0 ?st2] os 1(3,4) obtain c3 st3 where
      3: "even c3" "scan_chars (0, ?st2) (join (js '','') os) = (c3, st3)" "depth st3 = 0"
        "\<not> inString st3" "extractedObjects st3 = extractedObjects ?st2 @ vs"
      by auto
    have j: "join (js '','') (s # os) = s @ js '','' @ join (js '','') os"
      using os by simp
    have "scan_chars (count, st) (join (js '','') (s # os)) = (c3, st3)"
      unfolding j scan_chars_append 1(2) 2 3(2) ..
    then show ?thesis using 3 1(5) by simp
  qed
qed

text \<open>Trimming the array's content removes only whitespace, which the loop does not collect.\<close>

lemma trimEnd_split: "\<exists>w. js_blank w \<and> s = trimEnd s @ w"
proof -
  have "rev s = takeWhile is_js_ws (rev s) @ dropWhile is_js_ws (rev s)" by simp
  then have "s = rev (dropWhile is_js_ws (rev s)) @ rev (takeWhile is_js_ws (rev s))"
    by (metis rev_append rev_rev_ident)
  moreover have "js_blank (rev (takeWhile is_js_ws (rev s)))"
    by (simp add: js_blank_def)
  ultimately show ?thesis unfolding trimEnd_def by blast
qed

lemma js_blank_no_brace: "js_blank w \<Longrightarrow> ch CHR ''}'' \<notin> set w"
  by (auto simp: js_blank_def list_all_iff is_js_ws_def)

lemma join_Cons: "join sep (p # ps) = p @ (if ps = [] then [] else sep @ join sep ps)"
  by (cases ps) auto

text \<open>
  C6, as the code has it. For every array-expected input made of the opening bracket,
  \<open>N \<ge> 1\<close> texts that \<^verbatim>\<open>JSON.parse\<close> reads as objects (whitespace around an object
  allowed), separated by commas, trailing content without a closing brace, and the closing
  bracket, the whole not being valid JSON, the decoder returns exactly those \<open>N\<close> objects in
  their order and nothing else. The closing bracket is what lets the salvage loop run.
\<close>

theorem salvage_of_cut_array:
  assumes "list_all2 object_text os vs" and "os \<noteq> []"
    and "ch CHR ''}'' \<notin> set T"
    and "json_parse (js ''['' @ join (js '','') os @ T @ js '']'') = None"
  shows "parseJsonFromText (js ''['' @ join (js '','') os @ T @ js '']'') True = JArray vs"
proof -
  let ?J = "join (js '','') os"
  let ?text = "js ''['' @ ?J @ T @ js '']''"
  from assms(1,2) obtain p1 rest v1 vrest where
    os: "os = p1 # rest" and vs: "vs = v1 # vrest"
    and p1: "object_text p1 v1" and rest: "list_all2 object_text rest vrest"
    by (cases os; cases vs) auto
  from object_text_shape [OF p1] obtain a tail r where
    s: "p1 = a @ (ch CHR ''{'' # tail) @ r" and a: "ws a" and r: "ws r"
    and x: "value_text (ch CHR ''{'' # tail) v1" by blast
  define os' where "os' = ((ch CHR ''{'' # tail) @ r) # rest"
  let ?J' = "join (js '','') os'"
  have "json_parse ([] @ (ch CHR ''{'' # tail) @ r) = Some v1"
    by (intro json_parse_complete [OF _ r x]) (simp add: ws_def)
  then have "object_text ((ch CHR ''{'' # tail) @ r) v1"
    using p1 by (simp add: object_text_def)
  then have o': "list_all2 object_text os' vs" using rest by (simp add: os'_def vs)
  have j: "?J = a @ ?J'" by (simp add: os os'_def s join_Cons)
  obtain k where k: "?J' @ T = ch CHR ''{'' # k" by (simp add: os'_def join_Cons)
  have t: "trim ?text = ?text"
    using trim_blank [of "[]" "[]" ?text] by (simp add: js_blank_def js_def is_js_ws_def)
  have f: "fenceMatch ?text = None"
    by (simp add: fenceMatch_def startsWith_def backticks_def js_def)
  have se: "startsWith ?text (js ''['')" "endsWith ?text (js '']'')"
    by (simp_all add: startsWith_def endsWith_def js_def)
  have u: "substring ?text 1 (length ?text - 1) = ?J @ T"
    by (simp add: substring_def js_def Let_def min_def max_def)
  have "trimStart (a @ ?J' @ T) = ?J' @ T"
    using trimStart_blank [OF ws_js_blank [OF a], of "?J' @ T"] unfolding k
    by (simp add: is_js_ws_def)
  then have ts: "trimStart (?J @ T) = ?J' @ T" by (simp add: j)
  obtain w where w: "js_blank w" "?J' @ T = trim (?J @ T) @ w"
    using trimEnd_split [of "?J' @ T"] by (auto simp: trim_def ts)
  from scan_objects [OF o', of 0 scan_init] obtain c st' where
    1: "scan_chars (0, scan_init) ?J' = (c, st')" "extractedObjects st' = vs"
    by (auto simp: os'_def scan_init_def)
  have "extractedObjects (snd (scan_chars (0, scan_init) (?J' @ T))) = vs"
    by (simp add: scan_chars_append 1 scan_no_closing_brace [OF assms(3)])
  then have "extractedObjects (snd (scan_chars (0, scan_init) (trim (?J @ T) @ w))) = vs"
    by (simp only: w(2))
  then have e: "iterative_salvage (trim (?J @ T)) = vs"
    unfolding iterative_salvage_scan scan_chars_append
    using scan_no_closing_brace [OF js_blank_no_brace [OF w(1)]]
    by (metis prod.collapse)
  have v: "vs \<noteq> []" by (simp add: vs)
  show ?thesis
    unfolding parseJsonFromText_def Let_def t f option.case assms(4)
    using se v by (simp only: u e simp_thms if_True if_False)
qed

theorem salvage_of_cut_array_witness:
  "list_all2 object_text [js ''{\"a\":1}'', js '' {\"b\":\"}\"} '']
     [JObject [(js ''a'', JNumber (js ''1''))], JObject [(js ''b'', JString (js ''}''))]]
   \<and> ch CHR ''}'' \<notin> set (js '',{\"c\":'')
   \<and> json_parse (js ''[{\"a\":1}, {\"b\":\"}\"} ,{\"c\":]'') = None
   \<and> parseJsonFromText (js ''[{\"a\":1}, {\"b\":\"}\"} ,{\"c\":]'') True
       = JArray [JObject [(js ''a'', JNumber (js ''1''))], JObject [(js ''b'', JString (js ''}''))]]"
proof -
  have o: "list_all2 object_text [js ''{\"a\":1}'', js '' {\"b\":\"}\"} '']
     [JObject [(js ''a'', JNumber (js ''1''))], JObject [(js ''b'', JString (js ''}''))]]"
    by (simp add: object_text_def char_defs parse_defs js_def)
  have n: "[js ''{\"a\":1}'', js '' {\"b\":\"}\"} ''] \<noteq> []" by simp
  have t: "ch CHR ''}'' \<notin> set (js '',{\"c\":'')" by (simp add: js_def)
  have e: "js ''['' @ join (js '','') [js ''{\"a\":1}'', js '' {\"b\":\"}\"} ''] @ js '',{\"c\":'' @ js '']''
      = js ''[{\"a\":1}, {\"b\":\"}\"} ,{\"c\":]''"
    by (simp add: js_def)
  have p: "json_parse (js ''[{\"a\":1}, {\"b\":\"}\"} ,{\"c\":]'') = None"
    by (simp add: char_defs parse_defs js_def)
  show ?thesis
    using salvage_of_cut_array [OF o n t] o t p unfolding e by simp
qed

text \<open>
  C6 as stated fails. A truncated array has no closing bracket, the salvage loop is not
  entered, and two well-formed objects followed by a cut-off third decode to \<^verbatim>\<open>null\<close>.
  And trailing content is not arbitrary: with a closing bracket, an object after junk is
  collected as well.
\<close>

theorem truncated_array_not_salvaged:
  "parseJsonFromText (js ''[{\"a\":1},{\"b\":2},{\"c\"'') True = JNull
   \<and> JNull \<noteq> JArray [JObject [(js ''a'', JNumber (js ''1''))], JObject [(js ''b'', JNumber (js ''2''))]]
   \<and> parseJsonFromText (js ''[{\"a\":1},x,{\"b\":2}]'') True
       = JArray [JObject [(js ''a'', JNumber (js ''1''))], JObject [(js ''b'', JNumber (js ''2''))]]
   \<and> JArray [JObject [(js ''a'', JNumber (js ''1''))], JObject [(js ''b'', JNumber (js ''2''))]]
       \<noteq> JArray [JObject [(js ''a'', JNumber (js ''1''))]]"
  by (simp add: char_defs str_defs parse_defs decode_defs js_def Let_def upt_rec)

section \<open>Basic facts about the service\<close>

lemma js_eq_iff [simp]: "js a = js b \<longleftrightarrow> a = b"
  unfolding js_def by (simp add: inj_map_eq_map inj_on_def)

lemma js_Nil [simp]: "js [] = []" "js s = [] \<longleftrightarrow> s = []" "[] = js s \<longleftrightarrow> s = []"
  by (auto simp: js_def)

lemma js_Cons: "js (c # cs) = of_char c # js cs"
  by (simp add: js_def)

lemma message_typeError [simp]: "message typeError \<noteq> js ''API_KEY_MISSING''"
  by (simp add: typeError_def)

lemma message_uriError [simp]: "message uriError \<noteq> js ''API_KEY_MISSING''"
  by (simp add: uriError_def)

section \<open>The generation orchestrator\<close>

text \<open>
  C5. For every UserPreferences input, when the credential is absent (no client has been
  built and the environment's key is undefined or empty), \<open>generateDeals\<close> is rejected with
  the error whose message is \<^verbatim>\<open>API_KEY_MISSING\<close>, leaves the module state as it was and
  sends no request to the oracle. The caller can tell this failure from the others: an
  error whose message is not \<^verbatim>\<open>API_KEY_MISSING\<close> never leaves the catch block as that
  error.
\<close>

theorem generateDeals_credentials_missing:
  "ai st = None \<Longrightarrow> apiKey = None \<or> apiKey = Some [] \<Longrightarrow>
   generateDeals plat apiKey generateContent st preferences useSearchGrounding
     = (Inl (Error (js ''API_KEY_MISSING'')), st, [])
   \<and> (\<forall>e. message e \<noteq> js ''API_KEY_MISSING''
          \<longrightarrow> generateDeals_catch e \<noteq> Error (js ''API_KEY_MISSING''))"
  by (auto simp: generateDeals_def initializeAi_def generateDeals_catch_def)

theorem generateDeals_credentials_missing_witness:
  "ai \<lparr>ai = None\<rparr> = None \<and> ((None :: jsstring option) = None \<or> (None :: jsstring option) = Some [])
   \<and> generateDeals demo_platform None (answering (js ''[]'')) \<lparr>ai = None\<rparr> demo_preferences False
        = (Inl (Error (js ''API_KEY_MISSING'')), \<lparr>ai = None\<rparr>, [])
   \<and> message (Error (js ''Failed to generate deals from AI.'')) \<noteq> js ''API_KEY_MISSING''
   \<and> generateDeals_catch (Error (js ''Failed to generate deals from AI.'')) \<noteq> Error (js ''API_KEY_MISSING'')"
  using generateDeals_credentials_missing [of "\<lparr>ai = None\<rparr>" None demo_platform "answering (js ''[]'')"
      demo_preferences False]
  by simp

text \<open>
  C3, as the code has it. When the client is available and the oracle rejects the request
  with an error \<open>e\<close>, \<open>generateDeals\<close> is rejected with a new error of the fixed message
  \<^verbatim>\<open>Failed to generate deals from AI.\<close>; the message of \<open>e\<close> is not part of it. Only an
  error whose message is \<^verbatim>\<open>API_KEY_MISSING\<close> is thrown on as it is.
\<close>

theorem generateDeals_oracle_failure:
  "initializeAi apiKey st = Inr (client, st') \<Longrightarrow>
   generateContent client (generation_request preferences useSearchGrounding) = Inl e \<Longrightarrow>
   generateDeals plat apiKey generateContent st preferences useSearchGrounding
     = (Inl (if message e = js ''API_KEY_MISSING'' then e
             else Error (js ''Failed to generate deals from AI.'')),
        st', [generation_request preferences useSearchGrounding])"
  by (simp add: generateDeals_def generateDeals_catch_def)

theorem generateDeals_oracle_failure_witness:
  "initializeAi (Some (js ''key'')) \<lparr>ai = None\<rparr> = Inr (js ''key'', \<lparr>ai = Some (js ''key'')\<rparr>)
   \<and> failing (js ''quota exceeded'') (js ''key'') (generation_request demo_preferences False)
        = Inl (Error (js ''quota exceeded''))
   \<and> generateDeals demo_platform (Some (js ''key'')) (failing (js ''quota exceeded'')) \<lparr>ai = None\<rparr>
          demo_preferences False
        = (Inl (Error (js ''Failed to generate deals from AI.'')),
           \<lparr>ai = Some (js ''key'')\<rparr>, [generation_request demo_preferences False])"
proof -
  have i: "initializeAi (Some (js ''key'')) \<lparr>ai = None\<rparr> = Inr (js ''key'', \<lparr>ai = Some (js ''key'')\<rparr>)"
    by (simp add: initializeAi_def)
  have f: "failing (js ''quota exceeded'') (js ''key'') (generation_request demo_preferences False)
        = Inl (Error (js ''quota exceeded''))"
    by (simp add: failing_def)
  show ?thesis
    using generateDeals_oracle_failure
            [where generateContent = "failing (js ''quota exceeded'')" and plat = demo_platform, OF i f]
          i f
    by simp
qed

text \<open>
  C3 as stated fails: two oracle failures with different messages surface as one and the
  same error, whose message is neither of them.
\<close>

theorem oracle_message_not_preserved:
  "fst (generateDeals demo_platform (Some (js ''key'')) (failing (js ''quota exceeded''))
          \<lparr>ai = None\<rparr> demo_preferences False)
     = Inl (Error (js ''Failed to generate deals from AI.''))
   \<and> fst (generateDeals demo_platform (Some (js ''key'')) (failing (js ''network down''))
          \<lparr>ai = None\<rparr> demo_preferences False)
     = Inl (Error (js ''Failed to generate deals from AI.''))
   \<and> message (Error (js ''Failed to generate deals from AI.'')) \<noteq> js ''quota exceeded''"
  by (simp add: generateDeals_def initializeAi_def failing_def generateDeals_catch_def)

text \<open>
  C9. For every UserPreferences input and either value of the grounding flag, the
  configuration of the request never holds both \<^verbatim>\<open>responseMimeType\<close> and \<^verbatim>\<open>tools\<close>:
  with grounding the search tool is attached and the JSON hint is removed, without
  grounding the JSON hint is set and no tool is attached. This request is the only one
  \<open>generateDeals\<close> sends.
\<close>

theorem generation_request_exclusive:
  "(let cfg = config (generation_request preferences useSearchGrounding)
    in \<not> (responseMimeType cfg \<noteq> None \<and> tools cfg \<noteq> None)
       \<and> (useSearchGrounding \<longrightarrow> responseMimeType cfg = None \<and> tools cfg = Some [GoogleSearch])
       \<and> (\<not> useSearchGrounding \<longrightarrow>
             tools cfg = None \<and> responseMimeType cfg = Some (js ''application/json'')))
   \<and> set (snd (snd (generateDeals plat apiKey generateContent st preferences useSearchGrounding)))
        \<subseteq> {generation_request preferences useSearchGrounding}"
  by (auto simp: generation_request_def generateDeals_def Let_def split: sum.splits prod.splits)

theorem generation_request_exclusive_witness:
  "responseMimeType (config (generation_request demo_preferences True)) = None
   \<and> tools (config (generation_request demo_preferences True)) = Some [GoogleSearch]
   \<and> tools (config (generation_request demo_preferences False)) = None
   \<and> responseMimeType (config (generation_request demo_preferences False)) = Some (js ''application/json'')
   \<and> snd (snd (generateDeals demo_platform (Some (js ''key'')) (answering (js ''[]'')) \<lparr>ai = None\<rparr>
          demo_preferences True)) = [generation_request demo_preferences True]"
  using generation_request_exclusive [of demo_preferences True demo_platform "Some (js ''key'')"
          "answering (js ''[]'')" "\<lparr>ai = None\<rparr>"]
        generation_request_exclusive [of demo_preferences False demo_platform "Some (js ''key'')"
          "answering (js ''[]'')" "\<lparr>ai = None\<rparr>"]
  by (simp add: Let_def generateDeals_def initializeAi_def answering_def
        split: sum.splits prod.splits)

lemma field_last [simp]: "field k (kvs @ [(k, v)]) = Some v"
  by (simp add: field_def)

lemma deal_with_id_imageUrl:
  "deal_with_id plat deal index = Inr d \<Longrightarrow>
   \<exists>seed. image_seed plat deal index = Inr seed
     \<and> read_property d (js ''imageUrl'')
         = Inr (Some (JString (js ''https://picsum.photos/seed/'' @ seed @ js ''/300/200'')))"
  by (auto simp: deal_with_id_def field_def split: sum.splits)

lemma map_deals_imageUrl:
  "map_deals plat items k = Inr ds \<Longrightarrow>
   length ds = length items
   \<and> (\<forall>i<length items. \<exists>seed. image_seed plat (items ! i) (k + i) = Inr seed
          \<and> read_property (ds ! i) (js ''imageUrl'')
              = Inr (Some (JString (js ''https://picsum.photos/seed/'' @ seed @ js ''/300/200''))))"
proof (induction items arbitrary: k ds)
  case Nil
  then show ?case by simp
next
  case (Cons deal rest)
  from Cons.prems obtain d ds' where d: "deal_with_id plat deal k = Inr d"
    and r: "map_deals plat rest (Suc k) = Inr ds'" and ds: "ds = d # ds'"
    by (auto split: sum.splits)
  from Cons.IH [OF r] have len: "length ds' = length rest"
    and ih: "\<And>i. i < length rest \<Longrightarrow> \<exists>seed. image_seed plat (rest ! i) (Suc k + i) = Inr seed
          \<and> read_property (ds' ! i) (js ''imageUrl'')
              = Inr (Some (JString (js ''https://picsum.photos/seed/'' @ seed @ js ''/300/200'')))"
    by auto
  show ?case
  proof (intro conjI allI impI)
    show "length ds = length (deal # rest)" using len ds by simp
  next
    fix i assume i: "i < length (deal # rest)"
    show "\<exists>seed. image_seed plat ((deal # rest) ! i) (k + i) = Inr seed
          \<and> read_property (ds ! i) (js ''imageUrl'')
              = Inr (Some (JString (js ''https://picsum.photos/seed/'' @ seed @ js ''/300/200'')))"
    proof (cases i)
      case 0
      then show ?thesis using deal_with_id_imageUrl [OF d] ds by simp
    next
      case (Suc j)
      then show ?thesis using ih [of j] i ds by simp
    qed
  qed
qed

lemma item_with_image_mapped:
  "dealsWithIds demo_platform (JArray [item_with_image])
     = Inr [JObject [(js ''title'', JString (js ''A'')),
                     (js ''imageUrl'', JString (js ''http://x/a.png'')),
                     (js ''id'', JString (js ''1700000000000-0'')),
                     (js ''imageUrl'', JString (js ''https://picsum.photos/seed/A/300/200''))]]"
  by (simp add: dealsWithIds_def deal_with_id_def image_seed_def item_with_image_def
        demo_platform_def value_defs char_defs decimal.simps js_def)

text \<open>
  C4, as the code has it. For every decoded item, the deal returned carries the
  synthesized placeholder reference as its \<^verbatim>\<open>imageUrl\<close>, seeded from the item's title or,
  when that is absent or falsy, from \<^verbatim>\<open>deal-<index>\<close>: the reference is written after the
  item's own properties, so an \<^verbatim>\<open>imageUrl\<close> the item supplied is never the one read.
\<close>

theorem imageUrl_always_synthesized:
  "dealsWithIds plat (JArray items) = Inr ds \<Longrightarrow>
   length ds = length items
   \<and> (\<forall>i<length items. \<exists>seed. image_seed plat (items ! i) i = Inr seed
          \<and> read_property (ds ! i) (js ''imageUrl'')
              = Inr (Some (JString (js ''https://picsum.photos/seed/'' @ seed @ js ''/300/200''))))"
  using map_deals_imageUrl [of plat items 0 ds] by (simp add: dealsWithIds_def)

theorem imageUrl_always_synthesized_witness:
  "dealsWithIds demo_platform (JArray [item_with_image])
     = Inr [JObject [(js ''title'', JString (js ''A'')),
                     (js ''imageUrl'', JString (js ''http://x/a.png'')),
                     (js ''id'', JString (js ''1700000000000-0'')),
                     (js ''imageUrl'', JString (js ''https://picsum.photos/seed/A/300/200''))]]
   \<and> (0::nat) < length [item_with_image]
   \<and> image_seed demo_platform item_with_image 0 = Inr (js ''A'')
   \<and> read_property (JObject [(js ''title'', JString (js ''A'')),
                     (js ''imageUrl'', JString (js ''http://x/a.png'')),
                     (js ''id'', JString (js ''1700000000000-0'')),
                     (js ''imageUrl'', JString (js ''https://picsum.photos/seed/A/300/200''))])
         (js ''imageUrl'')
       = Inr (Some (JString (js ''https://picsum.photos/seed/'' @ js ''A'' @ js ''/300/200'')))"
  using imageUrl_always_synthesized [OF item_with_image_mapped] item_with_image_mapped
  by (simp add: image_seed_def item_with_image_def value_defs char_defs js_def)

text \<open>
  C4 as stated fails: an item that supplies \<^verbatim>\<open>http://x/a.png\<close> comes back with the
  placeholder reference.
\<close>

theorem supplied_imageUrl_overwritten:
  "fst (generateDeals demo_platform (Some (js ''key''))
          (answering (js ''[{\"title\":\"A\",\"imageUrl\":\"http://x/a.png\"}]''))
          \<lparr>ai = None\<rparr> demo_preferences False)
     = Inr \<lparr>deals = [JObject [(js ''title'', JString (js ''A'')),
                               (js ''imageUrl'', JString (js ''http://x/a.png'')),
                               (js ''id'', JString (js ''1700000000000-0'')),
                               (js ''imageUrl'', JString (js ''https://picsum.photos/seed/A/300/200''))]],
            groundingMetadata = None\<rparr>
   \<and> read_property (JObject [(js ''title'', JString (js ''A'')),
                               (js ''imageUrl'', JString (js ''http://x/a.png'')),
                               (js ''id'', JString (js ''1700000000000-0'')),
                               (js ''imageUrl'', JString (js ''https://picsum.photos/seed/A/300/200''))])
        (js ''imageUrl'')
       = Inr (Some (JString (js ''https://picsum.photos/seed/A/300/200'')))
   \<and> JString (js ''https://picsum.photos/seed/A/300/200'') \<noteq> JString (js ''http://x/a.png'')"
  by (simp add: generateDeals_def initializeAi_def answering_def dealsWithIds_def deal_with_id_def
        image_seed_def demo_platform_def value_defs char_defs str_defs parse_defs decode_defs
        decimal.simps js_def Let_def)

section \<open>The caller's placeholder deals\<close>

lemma mock_deal_category:
  "read_property (mock_deal plat i) (js ''category'')
     = Inr (Some (JString (DEAL_CATEGORIES ! (i mod length DEAL_CATEGORIES))))"
  by (simp add: mock_deal_def field_def)

lemma DEAL_CATEGORIES_length: "length DEAL_CATEGORIES = 10"
  by (simp add: DEAL_CATEGORIES_def)

text \<open>
  C8. When \<open>generateDeals\<close> is rejected with the missing-credentials error, the deal list
  that \<open>fetchDeals\<close> presents is not empty, its length is \<open>INITIAL_DEALS_COUNT\<close>, and the
  category of each of its deals is an element of \<open>DEAL_CATEGORIES\<close>.
\<close>

theorem fetchDeals_placeholders:
  "fst (generateDeals plat apiKey generateContent st prefs useSearchGrounding) = Inl err \<Longrightarrow>
   message err = js ''API_KEY_MISSING'' \<Longrightarrow>
   (let a' = fst (fetchDeals plat apiKey generateContent st a prefs useSearchGrounding)
    in app_deals a' \<noteq> []
       \<and> length (app_deals a') = INITIAL_DEALS_COUNT
       \<and> (\<forall>d \<in> set (app_deals a'). \<exists>c \<in> set DEAL_CATEGORIES.
             read_property d (js ''category'') = Inr (Some (JString c))))"
proof -
  assume g: "fst (generateDeals plat apiKey generateContent st prefs useSearchGrounding) = Inl err"
    and m: "message err = js ''API_KEY_MISSING''"
  obtain st' calls where
    "generateDeals plat apiKey generateContent st prefs useSearchGrounding = (Inl err, st', calls)"
    using g by (cases "generateDeals plat apiKey generateContent st prefs useSearchGrounding") auto
  then have d: "app_deals (fst (fetchDeals plat apiKey generateContent st a prefs useSearchGrounding))
      = map (mock_deal plat) [0..<INITIAL_DEALS_COUNT]"
    using m by (simp add: fetchDeals_def)
  have "\<exists>c \<in> set DEAL_CATEGORIES. read_property (mock_deal plat i) (js ''category'') = Inr (Some (JString c))" for i
    using mock_deal_category [of plat i] DEAL_CATEGORIES_length
    by (metis mod_less_divisor nth_mem zero_less_numeral)
  then show ?thesis
    using d by (auto simp: Let_def INITIAL_DEALS_COUNT_def)
qed

theorem fetchDeals_placeholders_witness:
  "fst (generateDeals demo_platform None (answering (js ''[]'')) \<lparr>ai = None\<rparr> demo_preferences False)
     = Inl (Error (js ''API_KEY_MISSING''))
   \<and> message (Error (js ''API_KEY_MISSING'')) = js ''API_KEY_MISSING''
   \<and> length (app_deals (fst (fetchDeals demo_platform None (answering (js ''[]'')) \<lparr>ai = None\<rparr>
         demo_app demo_preferences False))) = 6
   \<and> map (\<lambda>d. read_property d (js ''category''))
         (app_deals (fst (fetchDeals demo_platform None (answering (js ''[]'')) \<lparr>ai = None\<rparr>
            demo_app demo_preferences False)))
       = map (\<lambda>c. Inr (Some (JString c)))
           [js ''Electronics'', js ''Fashion'', js ''Home & Kitchen'', js ''Sports & Outdoors'',
            js ''Books'', js ''Groceries'']"
proof -
  have g: "fst (generateDeals demo_platform None (answering (js ''[]'')) \<lparr>ai = None\<rparr> demo_preferences False)
     = Inl (Error (js ''API_KEY_MISSING''))"
    by (simp add: generateDeals_def initializeAi_def generateDeals_catch_def)
  have m: "message (Error (js ''API_KEY_MISSING'')) = js ''API_KEY_MISSING''" by simp
  have l: "[0..<6] = [0, 1, 2, 3, 4, 5::nat]" by (simp add: upt_rec)
  show ?thesis
    using fetchDeals_placeholders [OF g m, of demo_app] g
    by (simp add: Let_def fetchDeals_def generateDeals_def initializeAi_def generateDeals_catch_def
          INITIAL_DEALS_COUNT_def l mock_deal_category DEAL_CATEGORIES_def)
qed

section \<open>The verification orchestrator\<close>

lemma failed_verification_score [simp]:
  "read_property (failed_verification s) (js ''score'') = Inr (Some (JNumber (js ''0'')))"
  by (simp add: failed_verification_def field_def)

lemma demo_prompt: "\<exists>p. verification_prompt demo_platform demo_deal = Inr p"
  by (simp add: verification_prompt_def property_text_def demo_deal_def field_def interpolate_def)

lemma initializeAi_fresh [simp]:
  "k \<noteq> [] \<Longrightarrow> initializeAi (Some k) \<lparr>ai = None\<rparr> = Inr (k, \<lparr>ai = Some k\<rparr>)"
  by (simp add: initializeAi_def)

text \<open>
  C1, as the code has it. When the credential is absent, \<open>verifyDeal\<close> sends no request and
  is rejected with the \<^verbatim>\<open>API_KEY_MISSING\<close> error, which its catch block throws on; it is
  the caller, \<open>handleVerifyDeal\<close>, that shows a verification of score 0 then. An oracle
  error with any other message, and a decoded value that is \<^verbatim>\<open>null\<close> or otherwise
  falsy, are absorbed: \<open>verifyDeal\<close> returns a verification whose score is exactly 0.
\<close>

theorem verifyDeal_failure_paths:
  "(ai st = None \<and> (apiKey = None \<or> apiKey = Some []) \<longrightarrow>
      verifyDeal plat apiKey generateContent st deal = (Inl (Error (js ''API_KEY_MISSING'')), st, [])
      \<and> verificationData (fst (handleVerifyDeal plat apiKey generateContent st a deal))
          = Some (failed_verification
               (if apiKeyMissing a then js ''AI Verification is unavailable. API_KEY is missing.''
                else js ''Failed to get verification from AI.'')))
   \<and> (initializeAi apiKey st = Inr (client, st') \<and> verification_prompt plat deal = Inr p \<longrightarrow>
        (generateContent client (verification_request p) = Inl e
           \<and> message e \<noteq> js ''API_KEY_MISSING'' \<longrightarrow>
         verifyDeal plat apiKey generateContent st deal
           = (Inr (failed_verification (js ''Failed to connect to AI for verification.'')),
              st', [verification_request p]))
        \<and> (generateContent client (verification_request p) = Inr response
             \<and> \<not> truthy (parseJsonFromText (response_text response) False) \<longrightarrow>
           verifyDeal plat apiKey generateContent st deal
             = (Inr (failed_verification
                  (js ''AI could not verify this deal due to response format error.'')),
                st', [verification_request p])))
   \<and> read_property (failed_verification s) (js ''score'') = Inr (Some (JNumber (js ''0'')))"
  by (auto simp: verifyDeal_def verifyDeal_catch_def handleVerifyDeal_def initializeAi_def Let_def)

theorem verifyDeal_failure_paths_witness:
  "verifyDeal demo_platform None (answering (js ''{}'')) \<lparr>ai = None\<rparr> demo_deal
     = (Inl (Error (js ''API_KEY_MISSING'')), \<lparr>ai = None\<rparr>, [])
   \<and> verificationData (fst (handleVerifyDeal demo_platform None (answering (js ''{}'')) \<lparr>ai = None\<rparr>
         demo_app demo_deal))
       = Some (failed_verification (js ''Failed to get verification from AI.''))
   \<and> fst (verifyDeal demo_platform (Some (js ''key'')) (failing (js ''timeout'')) \<lparr>ai = None\<rparr> demo_deal)
       = Inr (failed_verification (js ''Failed to connect to AI for verification.''))
   \<and> parseJsonFromText (js ''not json'') False = JNull
   \<and> fst (verifyDeal demo_platform (Some (js ''key'')) (answering (js ''not json'')) \<lparr>ai = None\<rparr> demo_deal)
       = Inr (failed_verification (js ''AI could not verify this deal due to response format error.''))"
proof -
  obtain p where p: "verification_prompt demo_platform demo_deal = Inr p"
    using demo_prompt by blast
  have i: "initializeAi (Some (js ''key'')) \<lparr>ai = None\<rparr> = Inr (js ''key'', \<lparr>ai = Some (js ''key'')\<rparr>)"
    by simp
  have d: "parseJsonFromText (js ''not json'') False = JNull"
    by (simp add: char_defs str_defs parse_defs decode_defs js_def Let_def)
  have 1: "verifyDeal demo_platform None (answering (js ''{}'')) \<lparr>ai = None\<rparr> demo_deal
     = (Inl (Error (js ''API_KEY_MISSING'')), \<lparr>ai = None\<rparr>, [])
     \<and> verificationData (fst (handleVerifyDeal demo_platform None (answering (js ''{}'')) \<lparr>ai = None\<rparr>
         demo_app demo_deal))
       = Some (failed_verification (js ''Failed to get verification from AI.''))"
    using verifyDeal_failure_paths [of "\<lparr>ai = None\<rparr>" None demo_platform "answering (js ''{}'')"
        demo_deal demo_app]
    by (simp add: demo_app_def)
  have 2: "fst (verifyDeal demo_platform (Some (js ''key'')) (failing (js ''timeout'')) \<lparr>ai = None\<rparr> demo_deal)
       = Inr (failed_verification (js ''Failed to connect to AI for verification.''))"
    using verifyDeal_failure_paths [where st = "\<lparr>ai = None\<rparr>" and apiKey = "Some (js ''key'')"
        and plat = demo_platform and generateContent = "failing (js ''timeout'')" and deal = demo_deal
        and client = "js ''key''" and st' = "\<lparr>ai = Some (js ''key'')\<rparr>" and p = p
        and e = "Error (js ''timeout'')"] p i
    by (simp add: failing_def)
  have 3: "fst (verifyDeal demo_platform (Some (js ''key'')) (answering (js ''not json'')) \<lparr>ai = None\<rparr> demo_deal)
       = Inr (failed_verification (js ''AI could not verify this deal due to response format error.''))"
    using verifyDeal_failure_paths [where st = "\<lparr>ai = None\<rparr>" and apiKey = "Some (js ''key'')"
        and plat = demo_platform and generateContent = "answering (js ''not json'')" and deal = demo_deal
        and client = "js ''key''" and st' = "\<lparr>ai = Some (js ''key'')\<rparr>" and p = p
        and response = "\<lparr>response_text = js ''not json'', candidate_groundingMetadata = None\<rparr>"] p i d
    by (simp add: answering_def)
  show ?thesis using 1 2 3 d by simp
qed

text \<open>
  C1 as stated fails: without a credential \<open>verifyDeal\<close> raises to its caller instead of
  returning a value.
\<close>

theorem verifyDeal_raises_without_credentials:
  "verifyDeal demo_platform None (answering (js ''{\"summary\":\"ok\",\"score\":4}'')) \<lparr>ai = None\<rparr> demo_deal
     = (Inl (Error (js ''API_KEY_MISSING'')), \<lparr>ai = None\<rparr>, [])"
  by (simp add: verifyDeal_def initializeAi_def verifyDeal_catch_def)

text \<open>
  C10, as the code has it. Whenever the decoder returns a truthy value for a verification
  response (any object or array, a non-empty string, \<^verbatim>\<open>true\<close>, a number other than zero),
  \<open>verifyDeal\<close> returns that value itself, whatever its shape.
\<close>

theorem verifyDeal_passes_truthy_value:
  "initializeAi apiKey st = Inr (client, st') \<Longrightarrow>
   verification_prompt plat deal = Inr p \<Longrightarrow>
   generateContent client (verification_request p) = Inr response \<Longrightarrow>
   truthy (parseJsonFromText (response_text response) False) \<Longrightarrow>
   verifyDeal plat apiKey generateContent st deal
     = (Inr (parseJsonFromText (response_text response) False), st', [verification_request p])"
  by (simp add: verifyDeal_def Let_def)

theorem verifyDeal_passes_truthy_value_witness:
  "parseJsonFromText (js ''{\"score\":\"high\"}'') False = JObject [(js ''score'', JString (js ''high''))]
   \<and> truthy (JObject [(js ''score'', JString (js ''high''))])
   \<and> fst (verifyDeal demo_platform (Some (js ''key'')) (answering (js ''{\"score\":\"high\"}''))
          \<lparr>ai = None\<rparr> demo_deal)
       = Inr (JObject [(js ''score'', JString (js ''high''))])"
proof -
  obtain p where p: "verification_prompt demo_platform demo_deal = Inr p"
    using demo_prompt by blast
  have i: "initializeAi (Some (js ''key'')) \<lparr>ai = None\<rparr> = Inr (js ''key'', \<lparr>ai = Some (js ''key'')\<rparr>)"
    by simp
  have d: "parseJsonFromText (js ''{\"score\":\"high\"}'') False = JObject [(js ''score'', JString (js ''high''))]"
    by (simp add: char_defs str_defs parse_defs decode_defs js_def Let_def)
  have a: "answering (js ''{\"score\":\"high\"}'') (js ''key'') (verification_request p)
     = Inr \<lparr>response_text = js ''{\"score\":\"high\"}'', candidate_groundingMetadata = None\<rparr>"
    by (simp add: answering_def)
  have t: "truthy (parseJsonFromText (response_text
      \<lparr>response_text = js ''{\"score\":\"high\"}'', candidate_groundingMetadata = None\<rparr>) False)"
    using d by simp
  show ?thesis
    using verifyDeal_passes_truthy_value
            [where generateContent = "answering (js ''{\"score\":\"high\"}'')" and plat = demo_platform,
             OF i p a t] d
    by simp
qed

text \<open>
  C10 as stated fails: the response \<^verbatim>\<open>false\<close> decodes to a value that is not \<^verbatim>\<open>null\<close>,
  and \<open>verifyDeal\<close> returns the format-error verification in its place.
\<close>

theorem falsy_value_not_passed_through:
  "parseJsonFromText (js ''false'') False = JBool False
   \<and> JBool False \<noteq> JNull
   \<and> fst (verifyDeal demo_platform (Some (js ''key'')) (answering (js ''false'')) \<lparr>ai = None\<rparr> demo_deal)
       = Inr (failed_verification (js ''AI could not verify this deal due to response format error.''))
   \<and> failed_verification (js ''AI could not verify this deal due to response format error.'')
       \<noteq> JBool False"
proof -
  obtain p where p: "verification_prompt demo_platform demo_deal = Inr p"
    using demo_prompt by blast
  have d: "parseJsonFromText (js ''false'') False = JBool False"
    by (simp add: char_defs str_defs parse_defs decode_defs js_def Let_def)
  show ?thesis
    using p d by (simp add: verifyDeal_def answering_def failed_verification_def Let_def)
qed

section \<open>The decoder on the truncated array\<close>

text \<open>
  C2, as the code has it. For the text \<^verbatim>\<open>[{"title":"A"},{"title":"B"\<close> with an array
  expected, the decoder returns the object of title \<^verbatim>\<open>A\<close> itself, found by the loose brace
  match: the text does not end with a closing bracket, so the salvage loop is not entered.
  With the closing bracket appended the salvage loop returns the one-element sequence of
  that object.
\<close>

theorem truncated_array_decodes_to_object:
  "parseJsonFromText truncated_array True = JObject [(js ''title'', JString (js ''A''))]
   \<and> parseJsonFromText (truncated_array @ js '']'') True
       = JArray [JObject [(js ''title'', JString (js ''A''))]]"
  by (simp add: truncated_array_def char_defs str_defs parse_defs decode_defs js_def Let_def upt_rec)

text \<open>C2 as stated fails: the result is not a sequence.\<close>

theorem truncated_array_not_a_sequence:
  "parseJsonFromText (js ''[{\"title\":\"A\"},{\"title\":\"B\"'') True
     \<noteq> JArray [JObject [(js ''title'', JString (js ''A''))]]"
  by (simp add: char_defs str_defs parse_defs decode_defs js_def Let_def)

end
